theory Spec2Isabelle
  imports Complex_Main
begin

section \<open>MobileNetV2 construction (MobileNet/model\_v2.py)\<close>

text \<open>
  The development embeds the three classes and the rounding helper of
  \<^verbatim>\<open>model_v2.py\<close>. Python ints are unbounded and are of type \<open>int\<close>. Python floats
  are IEEE 754 doubles: a float is a real number that a double can hold, or an infinity,
  or not-a-number, and every float operation rounds its exact result to the nearest
  double, ties to even. The two zeros are not distinguished; no operation of the
  program tells them apart.
\<close>

subsection \<open>Errors\<close>

text \<open>
  The exceptions that construction can raise. The first three come from Python's own
  arithmetic; \<open>ValueError\<close> and \<open>RuntimeError\<close> are also what the tensor library raises
  when a layer constructor rejects its arguments.
\<close>

datatype error = ZeroDivisionError | OverflowError | ValueError | RuntimeError

subsection \<open>Doubles\<close>

datatype float = Finite real | PosInf | NegInf | NaN

text \<open>Rounding a real to the nearest integer, ties to the even one.\<close>

definition round_half_even :: "real \<Rightarrow> int" where
  "round_half_even z =
     (let f = \<lfloor>z\<rfloor>; d = z - of_int f
      in if d < 1 / 2 then f else if 1 / 2 < d then f + 1 else if even f then f else f + 1)"

text \<open>
  The binary exponent of a positive real: for \<open>x \<ge> 1\<close> the number of halvings that
  bring it below 2 (at most 1023), for \<open>x < 1\<close> minus the number of doublings that bring
  it to 1 or above (at most 1022, where the subnormal range begins).
\<close>

primrec log2_up :: "nat \<Rightarrow> real \<Rightarrow> nat" where
  "log2_up 0 x = 0"
| "log2_up (Suc n) x = (if x < 2 then 0 else Suc (log2_up n (x / 2)))"

primrec log2_down :: "nat \<Rightarrow> real \<Rightarrow> nat" where
  "log2_down 0 x = 0"
| "log2_down (Suc n) x = (if 1 \<le> x then 0 else Suc (log2_down n (2 * x)))"

definition exponent :: "real \<Rightarrow> int" where
  "exponent x = (if 1 \<le> x then int (log2_up 1023 x) else - int (log2_down 1022 x))"

text \<open>
  The spacing of the doubles around \<open>x\<close> (53 significant bits), the multiple of it
  nearest to \<open>x\<close>, and the double that \<open>x\<close> rounds to: an infinity when \<open>x\<close> or its
  rounded value reaches \<open>2 ^ 1024\<close>.
\<close>

definition ulp :: "real \<Rightarrow> real" where
  "ulp x = 2 powi (exponent \<bar>x\<bar> - 52)"

definition nearest :: "real \<Rightarrow> real" where
  "nearest x = ulp x * of_int (round_half_even (x / ulp x))"

definition round_double :: "real \<Rightarrow> float" where
  "round_double x =
     (if x = 0 then Finite 0
      else if 2 ^ 1024 \<le> \<bar>x\<bar> then (if 0 < x then PosInf else NegInf)
      else if 2 ^ 1024 \<le> \<bar>nearest x\<bar> then (if 0 < x then PosInf else NegInf)
      else Finite (nearest x))"

text \<open>A decimal literal such as \<^verbatim>\<open>0.9\<close> denotes the double nearest to it.\<close>

definition double :: "real \<Rightarrow> float" where
  "double x = round_double x"

text \<open>A finite float is well formed if it is a double, that is, if rounding leaves it alone.\<close>

fun is_double :: "float \<Rightarrow> bool" where
  "is_double (Finite r) = (round_double r = Finite r)"
| "is_double x = True"

text \<open>Float addition and multiplication.\<close>

fun fadd :: "float \<Rightarrow> float \<Rightarrow> float" where
  "fadd (Finite a) (Finite b) = round_double (a + b)"
| "fadd NaN y = NaN"
| "fadd x NaN = NaN"
| "fadd PosInf NegInf = NaN"
| "fadd NegInf PosInf = NaN"
| "fadd PosInf y = PosInf"
| "fadd x PosInf = PosInf"
| "fadd NegInf y = NegInf"
| "fadd x NegInf = NegInf"

definition sign_mult :: "real \<Rightarrow> float" where
  "sign_mult s = (if s = 0 then NaN else if 0 < s then PosInf else NegInf)"

fun fmul :: "float \<Rightarrow> float \<Rightarrow> float" where
  "fmul (Finite a) (Finite b) = round_double (a * b)"
| "fmul NaN y = NaN"
| "fmul x NaN = NaN"
| "fmul (Finite a) PosInf = sign_mult a"
| "fmul (Finite a) NegInf = sign_mult (- a)"
| "fmul PosInf (Finite b) = sign_mult b"
| "fmul NegInf (Finite b) = sign_mult (- b)"
| "fmul PosInf PosInf = PosInf"
| "fmul NegInf NegInf = PosInf"
| "fmul PosInf NegInf = NegInf"
| "fmul NegInf PosInf = NegInf"

subsection \<open>Python arithmetic\<close>

text \<open>
  Converting an int to a float rounds it, and raises when the int is too large for a
  double. \<^verbatim>\<open>c * alpha\<close> with an int \<open>c\<close> and a float \<open>alpha\<close> converts \<open>c\<close> first.
\<close>

definition int_to_float :: "int \<Rightarrow> error + float" where
  "int_to_float i =
     (case round_double (of_int i) of Finite r \<Rightarrow> Inr (Finite r) | _ \<Rightarrow> Inl OverflowError)"

definition int_times_float :: "int \<Rightarrow> float \<Rightarrow> error + float" where
  "int_times_float c alpha =
     (case int_to_float c of Inl e \<Rightarrow> Inl e | Inr cf \<Rightarrow> Inr (fmul cf alpha))"

text \<open>
  \<^verbatim>\<open>a / b\<close> on two ints is the exact quotient rounded to a double; it raises when
  \<open>b\<close> is zero or the quotient is too large for a double.
\<close>

definition int_truediv :: "int \<Rightarrow> int \<Rightarrow> error + float" where
  "int_truediv a b =
     (if b = 0 then Inl ZeroDivisionError
      else case round_double (of_int a / of_int b) of
             Finite r \<Rightarrow> Inr (Finite r)
           | _ \<Rightarrow> Inl OverflowError)"

text \<open>
  \<^verbatim>\<open>int(x)\<close> on a float truncates towards zero, and raises on an infinity and on
  not-a-number.
\<close>

fun py_int :: "float \<Rightarrow> error + int" where
  "py_int (Finite x) = Inr (if 0 \<le> x then \<lfloor>x\<rfloor> else \<lceil>x\<rceil>)"
| "py_int NaN = Inl ValueError"
| "py_int x = Inl OverflowError"

text \<open>
  \<^verbatim>\<open>a // b\<close> on ints is floor division, as \<open>div\<close> on \<open>int\<close> is, and raises when the
  divisor is zero.
\<close>

definition py_floordiv :: "int \<Rightarrow> int \<Rightarrow> error + int" where
  "py_floordiv a b = (if b = 0 then Inl ZeroDivisionError else Inr (a div b))"

text \<open>\<^verbatim>\<open>n < x\<close> with an int \<open>n\<close> and a float \<open>x\<close> compares the exact values.\<close>

fun int_lt_float :: "int \<Rightarrow> float \<Rightarrow> bool" where
  "int_lt_float n (Finite x) = (of_int n < x)"
| "int_lt_float n PosInf = True"
| "int_lt_float n x = False"

subsection \<open>The rounding helper\<close>

text \<open>
  \<^verbatim>\<open>_make_divisible(ch, divisor=8, min_ch=None)\<close>; the optional \<open>min_ch\<close> is an
  \<open>int option\<close>, and callers that rely on the default divisor pass 8. The operations
  are taken in the order Python evaluates them: \<^verbatim>\<open>divisor / 2\<close>, the sum, \<^verbatim>\<open>int\<close>,
  \<^verbatim>\<open>//\<close>, and then the guard with its product \<^verbatim>\<open>0.9*ch\<close>.
\<close>

definition make_divisible :: "float \<Rightarrow> int \<Rightarrow> int option \<Rightarrow> error + int" where
  "make_divisible ch divisor min_ch_opt =
     (let min_ch = (case min_ch_opt of None \<Rightarrow> divisor | Some m \<Rightarrow> m) in
      case int_truediv divisor 2 of
        Inl e \<Rightarrow> Inl e
      | Inr half \<Rightarrow>
     (case py_int (fadd ch half) of
        Inl e \<Rightarrow> Inl e
      | Inr i \<Rightarrow>
     (case py_floordiv i divisor of
        Inl e \<Rightarrow> Inl e
      | Inr q \<Rightarrow>
          (let new_ch = max min_ch (q * divisor) in
           if int_lt_float new_ch (fmul (double 0.9) ch)
           then Inr (new_ch + divisor) else Inr new_ch))))"

text \<open>
  \<^verbatim>\<open>_make_divisible(c * alpha, round_nearest)\<close>, the expression of lines 76, 77
  and 95.
\<close>

definition scaled_channels :: "int \<Rightarrow> float \<Rightarrow> int \<Rightarrow> error + int" where
  "scaled_channels c alpha round_nearest =
     (case int_times_float c alpha of
        Inl e \<Rightarrow> Inl e
      | Inr ch \<Rightarrow> make_divisible ch round_nearest None)"

text \<open>
  The reference algorithm in the words of the specification (section 4.1): the
  candidate is \<open>max(min_channels, floor((raw + divisor/2) / divisor) * divisor)\<close>, and
  one divisor is added when the candidate is below \<open>0.9 * raw\<close>. It is written once
  with the sum and the product as parameters; the specification's algorithm is the
  instance with their exact values.
\<close>

definition candidate :: "real \<Rightarrow> int \<Rightarrow> int option \<Rightarrow> int" where
  "candidate sum_value divisor min_channels_opt =
     (let min_channels = (case min_channels_opt of None \<Rightarrow> divisor | Some m \<Rightarrow> m)
      in max min_channels (\<lfloor>sum_value / real_of_int divisor\<rfloor> * divisor))"

definition round_channels_with :: "real \<Rightarrow> real \<Rightarrow> int \<Rightarrow> int option \<Rightarrow> int" where
  "round_channels_with sum_value product_value divisor min_channels_opt =
     (let c = candidate sum_value divisor min_channels_opt
      in if real_of_int c < product_value then c + divisor else c)"

definition round_channels_spec :: "real \<Rightarrow> int \<Rightarrow> int option \<Rightarrow> int" where
  "round_channels_spec raw divisor min_channels_opt =
     round_channels_with (raw + real_of_int divisor / 2) (0.9 * raw) divisor min_channels_opt"

subsection \<open>Modules\<close>

text \<open>
  A module of the tensor library is a tree. The primitive layers are leaves that record
  their constructor arguments; \<open>Conv2d\<close> lists them in the order
  \<^verbatim>\<open>in_channels, out_channels, kernel_size, stride, padding, groups, bias\<close>.
  \<open>Sequential\<close> holds its children in order; \<open>ConvBNReLU_module\<close> is the subclass of
  \<open>Sequential\<close> declared in the file; the other two node kinds are the objects of the
  classes \<open>InvertedResidual\<close> and \<open>MobileNetV2\<close> with their attributes.
\<close>

datatype module =
    is_Conv2d: Conv2d (conv_in_channels: int) (conv_out_channels: int) (conv_kernel_size: int)
      (conv_stride: int) (conv_padding: int) (conv_groups: int) (conv_bias: bool)
  | is_BatchNorm2d: BatchNorm2d (num_features: int)
  | is_ReLU6: ReLU6
  | is_Dropout: Dropout real
  | is_Linear: Linear (in_features: int) (out_features: int)
  | is_AdaptiveAvgPool2d: AdaptiveAvgPool2d int int
  | is_Sequential: Sequential (layers: "module list")
  | is_ConvBNReLU: ConvBNReLU_module (cbr_layers: "module list")
  | is_InvertedResidual: InvertedResidual_module (use_shortcut: bool) (conv: module)
  | is_MobileNetV2: MobileNetV2_module (features: module) (avgpool: module) (classifier: module)

text \<open>
  \<^verbatim>\<open>ConvBNReLU(in_channel, out_channel, kernel_size=3, stride=1, groups=1)\<close>; the
  defaults are written out at each call. \<open>ConvBNReLU\<close> and \<open>InvertedResidual\<close> give the
  object that the class constructor assembles; whether the library accepts its layers
  is decided by \<open>construct\<close> below, so that building a unit is
  \<open>construct (ConvBNReLU \<dots>)\<close> or \<open>construct (InvertedResidual \<dots>)\<close>.
\<close>

definition ConvBNReLU :: "int \<Rightarrow> int \<Rightarrow> int \<Rightarrow> int \<Rightarrow> int \<Rightarrow> module" where
  "ConvBNReLU in_channel out_channel kernel_size stride groups =
     (let padding = (kernel_size - 1) div 2 in
      ConvBNReLU_module
        [Conv2d in_channel out_channel kernel_size stride padding groups False,
         BatchNorm2d out_channel,
         ReLU6])"

text \<open>
  \<^verbatim>\<open>InvertedResidual(in_channel, out_channel, stride, expand_ratio)\<close>. The projection
  \<^verbatim>\<open>nn.Conv2d(hidden_channel, out_channel, kernel_size=1, bias=False)\<close> takes the
  library's defaults stride 1, padding 0 and groups 1.
\<close>

definition InvertedResidual :: "int \<Rightarrow> int \<Rightarrow> int \<Rightarrow> int \<Rightarrow> module" where
  "InvertedResidual in_channel out_channel stride expand_ratio =
     (let hidden_channel = in_channel * expand_ratio;
          shortcut = (stride = 1 \<and> in_channel = out_channel);
          layers0 = (if expand_ratio \<noteq> 1
                     then [ConvBNReLU in_channel hidden_channel 1 1 1] else []);
          layers1 = layers0 @
            [ConvBNReLU hidden_channel hidden_channel 3 stride hidden_channel,
             Conv2d hidden_channel out_channel 1 1 0 1 False,
             BatchNorm2d out_channel]
      in InvertedResidual_module shortcut (Sequential layers1))"

text \<open>
  \<^verbatim>\<open>InvertedResidual.forward\<close>. Tensors and the two operations on them belong to the
  tensor library, so the tensor type is a type variable and the operations are
  parameters: \<open>call\<close> runs a module on a tensor and \<open>add\<close> is the elementwise sum.
\<close>

definition InvertedResidual_forward ::
    "(module \<Rightarrow> 'a \<Rightarrow> 'a) \<Rightarrow> ('a \<Rightarrow> 'a \<Rightarrow> 'a) \<Rightarrow> module \<Rightarrow> 'a \<Rightarrow> 'a" where
  "InvertedResidual_forward call add self x =
     (if use_shortcut self then add x (call (conv self) x) else call (conv self) x)"

subsection \<open>The module traversal\<close>

text \<open>
  \<^verbatim>\<open>self.modules()\<close> walks the tree in preorder, the module itself first. Each module
  is identified by its path, the list of child positions from the root (the library
  names them \<^verbatim>\<open>features.0.1\<close> and so on).
\<close>

type_synonym path = "nat list"

fun named_modules :: "path \<Rightarrow> module \<Rightarrow> (path \<times> module) list"
  and modules_list :: "path \<Rightarrow> nat \<Rightarrow> module list \<Rightarrow> (path \<times> module) list" where
  "named_modules p (Sequential ms) = (p, Sequential ms) # modules_list p 0 ms"
| "named_modules p (ConvBNReLU_module ms) = (p, ConvBNReLU_module ms) # modules_list p 0 ms"
| "named_modules p (InvertedResidual_module u c) =
     (p, InvertedResidual_module u c) # named_modules (p @ [0]) c"
| "named_modules p (MobileNetV2_module f a c) =
     (p, MobileNetV2_module f a c) #
       named_modules (p @ [0]) f @ named_modules (p @ [1]) a @ named_modules (p @ [2]) c"
| "named_modules p m = [(p, m)]"
| "modules_list p i [] = []"
| "modules_list p i (m # ms) = named_modules (p @ [i]) m @ modules_list p (Suc i) ms"

definition modules :: "module \<Rightarrow> (path \<times> module) list" where
  "modules m = named_modules [] m"

text \<open>The modules directly below a module, in order, and the module at a path.\<close>

fun children :: "module \<Rightarrow> module list" where
  "children (Sequential ms) = ms"
| "children (ConvBNReLU_module ms) = ms"
| "children (InvertedResidual_module u c) = [c]"
| "children (MobileNetV2_module f a c) = [f, a, c]"
| "children m = []"

fun get_submodule :: "module \<Rightarrow> path \<Rightarrow> module option" where
  "get_submodule m [] = Some m"
| "get_submodule m (i # p) =
     (if i < length (children m) then get_submodule (children m ! i) p else None)"

subsection \<open>The argument checks of the layer constructors\<close>

text \<open>
  The constructors of the primitive layers belong to the tensor library, not to the
  repository. They reject some arguments: a convolution needs a positive \<open>groups\<close> that
  divides both channel counts (\<open>ValueError\<close> otherwise), and no parameter tensor can
  have a negative dimension (\<open>RuntimeError\<close>): the weight of a convolution has the
  dimensions \<open>out_channels\<close>, \<open>in_channels // groups\<close> and the kernel size, that of a
  normalization layer \<open>num_features\<close>, that of a linear map \<open>out_features\<close> and
  \<open>in_features\<close>. A dimension of zero is accepted. Running out of memory is not
  modelled.
\<close>

fun check_layer :: "module \<Rightarrow> error option" where
  "check_layer (Conv2d i o' k s p g b) =
     (if g \<le> 0 then Some ValueError
      else if i mod g \<noteq> 0 then Some ValueError
      else if o' mod g \<noteq> 0 then Some ValueError
      else if o' < 0 \<or> i div g < 0 \<or> k < 0 then Some RuntimeError
      else None)"
| "check_layer (BatchNorm2d n) = (if n < 0 then Some RuntimeError else None)"
| "check_layer (Linear i o') = (if o' < 0 \<or> i < 0 then Some RuntimeError else None)"
| "check_layer m = None"

text \<open>
  The primitive layers of a module in the order in which its constructor creates them,
  and the first error among them. \<open>construct m\<close> is the outcome of building \<open>m\<close>: the
  first rejection, or \<open>m\<close> itself.
\<close>

fun primitive_layers :: "module \<Rightarrow> module list"
  and primitive_layers_list :: "module list \<Rightarrow> module list" where
  "primitive_layers (Sequential ms) = primitive_layers_list ms"
| "primitive_layers (ConvBNReLU_module ms) = primitive_layers_list ms"
| "primitive_layers (InvertedResidual_module u c) = primitive_layers c"
| "primitive_layers (MobileNetV2_module f a c) =
     primitive_layers f @ primitive_layers a @ primitive_layers c"
| "primitive_layers m = [m]"
| "primitive_layers_list [] = []"
| "primitive_layers_list (m # ms) = primitive_layers m @ primitive_layers_list ms"

fun first_error :: "module list \<Rightarrow> error option" where
  "first_error [] = None"
| "first_error (l # ls) = (case check_layer l of Some e \<Rightarrow> Some e | None \<Rightarrow> first_error ls)"

definition construct :: "module \<Rightarrow> error + module" where
  "construct m = (case first_error (primitive_layers m) of Some e \<Rightarrow> Inl e | None \<Rightarrow> Inr m)"

subsection \<open>Assembling the feature sequence\<close>

definition inverted_residual_setting :: "(int \<times> int \<times> int \<times> int) list" where
  "inverted_residual_setting =
     [(1, 16, 1, 1),
      (6, 24, 2, 2),
      (6, 32, 3, 2),
      (6, 64, 4, 2),
      (6, 96, 3, 1),
      (6, 160, 3, 2),
      (6, 320, 1, 1)]"

text \<open>Python's \<^verbatim>\<open>range(n)\<close>: empty when \<open>n \<le> 0\<close>.\<close>

definition py_range :: "int \<Rightarrow> int list" where
  "py_range n = map int [0..<nat n]"

text \<open>
  The inner loop \<^verbatim>\<open>for i in range(n)\<close>, over the list \<open>range(n)\<close>; its state is the
  running \<open>input_channel\<close> and the list \<open>features\<close>. It stops at the first block that
  the library rejects.
\<close>

fun stage_loop ::
    "int \<Rightarrow> int \<Rightarrow> int \<Rightarrow> int list \<Rightarrow> int \<times> module list \<Rightarrow> error + int \<times> module list" where
  "stage_loop t output_channel s [] st = Inr st"
| "stage_loop t output_channel s (i # is) (input_channel, fs) =
     (case construct (InvertedResidual input_channel output_channel (if i = 0 then s else 1) t) of
        Inl e \<Rightarrow> Inl e
      | Inr b \<Rightarrow> stage_loop t output_channel s is (output_channel, fs @ [b]))"

text \<open>The outer loop \<^verbatim>\<open>for t, c, n, s in inverted_residual_setting\<close>.\<close>

fun build_stages ::
    "float \<Rightarrow> int \<Rightarrow> (int \<times> int \<times> int \<times> int) list \<Rightarrow> int \<times> module list \<Rightarrow> error + int \<times> module list" where
  "build_stages alpha round_nearest [] st = Inr st"
| "build_stages alpha round_nearest ((t, c, n, s) # rest) st =
     (case scaled_channels c alpha round_nearest of
        Inl e \<Rightarrow> Inl e
      | Inr output_channel \<Rightarrow>
     (case stage_loop t output_channel s (py_range n) st of
        Inl e \<Rightarrow> Inl e
      | Inr st' \<Rightarrow> build_stages alpha round_nearest rest st'))"

subsection \<open>Parameters and the initialization pass\<close>

text \<open>
  The contents of a parameter tensor are known only through the fill that wrote them
  last: \<open>Default\<close> is whatever the layer's own constructor left there.
\<close>

datatype tensor = Default | Zeros | Ones | KaimingNormalFanOut | Normal real real

record params =
  weight :: "tensor option"
  bias :: "tensor option"

text \<open>
  The parameters a layer owns after its constructor has run: a convolution has a bias
  only if it was asked for, normalization and the linear map have both (the library's
  defaults \<^verbatim>\<open>affine=True\<close> and \<^verbatim>\<open>bias=True\<close>), and no other module has parameters
  of its own.
\<close>

fun new_params :: "module \<Rightarrow> params" where
  "new_params (Conv2d i o' k s p g b) =
     \<lparr>weight = Some Default, bias = (if b then Some Default else None)\<rparr>"
| "new_params (BatchNorm2d n) = \<lparr>weight = Some Default, bias = Some Default\<rparr>"
| "new_params (Linear i o') = \<lparr>weight = Some Default, bias = Some Default\<rparr>"
| "new_params m = \<lparr>weight = None, bias = None\<rparr>"

text \<open>The body of the loop \<^verbatim>\<open>for m in self.modules()\<close>, on the parameters of \<open>m\<close>.\<close>

fun init_module :: "module \<Rightarrow> params \<Rightarrow> params" where
  "init_module (Conv2d i o' k s p g b) ps =
     ps\<lparr>weight := Some KaimingNormalFanOut,
        bias := (case bias ps of None \<Rightarrow> None | Some _ \<Rightarrow> Some Zeros)\<rparr>"
| "init_module (BatchNorm2d n) ps = ps\<lparr>weight := Some Ones, bias := Some Zeros\<rparr>"
| "init_module (Linear i o') ps = ps\<lparr>weight := Some (Normal 0 0.01), bias := Some Zeros\<rparr>"
| "init_module m ps = ps"

definition init_weights :: "(path \<times> module) list \<Rightarrow> (path \<Rightarrow> params) \<Rightarrow> (path \<Rightarrow> params)" where
  "init_weights ms = fold (\<lambda>(p, m) \<sigma>. \<sigma>(p := init_module m (\<sigma> p))) ms"

text \<open>
  The parameter store of a freshly assembled tree: the constructor of every layer has
  created the layer's own parameters, whether or not the traversal reaches the layer.
\<close>

definition allocate :: "module \<Rightarrow> (path \<Rightarrow> params)" where
  "allocate self p =
     (case get_submodule self p of
        None \<Rightarrow> \<lparr>weight = None, bias = None\<rparr>
      | Some m \<Rightarrow> new_params m)"

subsection \<open>The network constructor\<close>

record model =
  net :: module
  parameters :: "path \<Rightarrow> params"

text \<open>
  \<^verbatim>\<open>MobileNetV2(num_classes=1000, alpha=1.0, round_nearest=8)\<close>, statement by
  statement: the two channel counts, the stem, the stages, the head, the classifier,
  and the initialization pass.
\<close>

definition MobileNetV2 :: "int \<Rightarrow> float \<Rightarrow> int \<Rightarrow> error + model" where
  "MobileNetV2 num_classes alpha round_nearest =
     (case scaled_channels 32 alpha round_nearest of
        Inl e \<Rightarrow> Inl e
      | Inr input_channel \<Rightarrow>
     (case scaled_channels 1280 alpha round_nearest of
        Inl e \<Rightarrow> Inl e
      | Inr last_channel \<Rightarrow>
     (case construct (ConvBNReLU 3 input_channel 3 2 1) of
        Inl e \<Rightarrow> Inl e
      | Inr conv1 \<Rightarrow>
     (case build_stages alpha round_nearest inverted_residual_setting (input_channel, [conv1]) of
        Inl e \<Rightarrow> Inl e
      | Inr (input_channel', fs) \<Rightarrow>
     (case construct (ConvBNReLU input_channel' last_channel 1 1 1) of
        Inl e \<Rightarrow> Inl e
      | Inr conv_last \<Rightarrow>
     (case construct (Sequential [Dropout 0.2, Linear last_channel num_classes]) of
        Inl e \<Rightarrow> Inl e
      | Inr cls \<Rightarrow>
          (let self = MobileNetV2_module (Sequential (fs @ [conv_last])) (AdaptiveAvgPool2d 1 1) cls
           in Inr \<lparr>net = self,
                   parameters = init_weights (modules self) (allocate self)\<rparr>)))))))"

subsection \<open>Observing a block\<close>

text \<open>
  A constructed block does not keep its constructor arguments; they are read off its
  convolutions: the input channels of the first, the output channels of the last, and
  the stride of the 3x3 one.
\<close>

definition convs :: "module \<Rightarrow> module list" where
  "convs b = filter is_Conv2d (map snd (modules b))"

definition block_in :: "module \<Rightarrow> int option" where
  "block_in b = (case convs b of [] \<Rightarrow> None | c # _ \<Rightarrow> Some (conv_in_channels c))"

definition block_out :: "module \<Rightarrow> int option" where
  "block_out b = (case rev (convs b) of [] \<Rightarrow> None | c # _ \<Rightarrow> Some (conv_out_channels c))"

definition block_stride :: "module \<Rightarrow> int option" where
  "block_stride b = map_option conv_stride (find (\<lambda>c. conv_kernel_size c = 3) (convs b))"

subsection \<open>Reference notions for the feature sequence\<close>

text \<open>
  The stride pattern a stage \<open>(t, c, n, s)\<close> is said to have: its first block has the
  stage's stride and the other \<open>n - 1\<close> blocks have stride 1.
\<close>

definition stage_strides :: "int \<times> int \<times> int \<times> int \<Rightarrow> int option list" where
  "stage_strides = (\<lambda>(t, c, n, s). if n \<le> 0 then [] else Some s # replicate (nat n - 1) (Some 1))"

text \<open>
  \<open>chain c bs c'\<close>: the blocks \<open>bs\<close> pass channels from left to right, starting from
  \<open>c\<close> and ending with \<open>c'\<close>.
\<close>

fun chain :: "int \<Rightarrow> module list \<Rightarrow> int \<Rightarrow> bool" where
  "chain c [] c' = (c = c')"
| "chain c (b # bs) c' =
     (block_in b = Some c \<and> (case block_out b of None \<Rightarrow> False | Some d \<Rightarrow> chain d bs c'))"

text \<open>
  The feature sequence expected for \<open>alpha = 1.0\<close> and \<open>round_nearest = 8\<close>, written out
  unit by unit: the stem, the seventeen blocks of the seven stages, and the head.
\<close>

definition default_features :: "module list" where
  "default_features =
     [ConvBNReLU 3 32 3 2 1,
      InvertedResidual 32 16 1 1,
      InvertedResidual 16 24 2 6, InvertedResidual 24 24 1 6,
      InvertedResidual 24 32 2 6, InvertedResidual 32 32 1 6, InvertedResidual 32 32 1 6,
      InvertedResidual 32 64 2 6, InvertedResidual 64 64 1 6, InvertedResidual 64 64 1 6,
      InvertedResidual 64 64 1 6,
      InvertedResidual 64 96 1 6, InvertedResidual 96 96 1 6, InvertedResidual 96 96 1 6,
      InvertedResidual 96 160 2 6, InvertedResidual 160 160 1 6, InvertedResidual 160 160 1 6,
      InvertedResidual 160 320 1 6,
      ConvBNReLU 320 1280 1 1 1]"

definition default_net :: "int \<Rightarrow> module" where
  "default_net num_classes =
     MobileNetV2_module (Sequential default_features) (AdaptiveAvgPool2d 1 1)
       (Sequential [Dropout 0.2, Linear 1280 num_classes])"

subsection \<open>Properties of rounding to a double\<close>

lemma log2_up_numeral:
  "log2_up (numeral k) x = (if x < 2 then 0 else Suc (log2_up (pred_numeral k) (x / 2)))"
  by (simp add: numeral_eq_Suc)

lemma log2_down_numeral:
  "log2_down (numeral k) x = (if 1 \<le> x then 0 else Suc (log2_down (pred_numeral k) (2 * x)))"
  by (simp add: numeral_eq_Suc)


lemma round_half_even_error: "\<bar>of_int (round_half_even z) - z\<bar> \<le> 1 / 2"
proof -
  have "of_int \<lfloor>z\<rfloor> \<le> z" "z < of_int \<lfloor>z\<rfloor> + 1" by linarith+
  then show ?thesis by (auto simp: round_half_even_def Let_def)
qed

lemma round_half_even_nonneg: "0 \<le> z \<Longrightarrow> 0 \<le> round_half_even z"
proof -
  assume "0 \<le> z"
  then have "0 \<le> \<lfloor>z\<rfloor>" by simp
  then show ?thesis by (auto simp: round_half_even_def Let_def)
qed

lemma log2_up_le: "log2_up n x \<le> n"
  by (induction n arbitrary: x) auto

lemma log2_down_le: "log2_down n x \<le> n"
  by (induction n arbitrary: x) auto

lemma log2_up_bounds:
  "1 \<le> x \<Longrightarrow> x < 2 ^ Suc n \<Longrightarrow> 2 ^ log2_up n x \<le> x \<and> x < 2 * 2 ^ log2_up n x"
proof (induction n arbitrary: x)
  case 0
  then show ?case by simp
next
  case (Suc n)
  show ?case
  proof (cases "x < 2")
    case True
    with Suc.prems show ?thesis by simp
  next
    case False
    with Suc.prems have "1 \<le> x / 2" "x / 2 < 2 ^ Suc n" by simp_all
    from Suc.IH [OF this] False show ?thesis by simp
  qed
qed

lemma log2_down_bounds:
  "0 < x \<Longrightarrow> x < 1 \<Longrightarrow>
   x * 2 ^ log2_down n x < 2 \<and> (1 \<le> x * 2 ^ log2_down n x \<or> log2_down n x = n)"
proof (induction n arbitrary: x)
  case 0
  then show ?case by simp
next
  case (Suc n)
  show ?case
  proof (cases "1 \<le> 2 * x")
    case True
    with Suc.prems show ?thesis by (cases n) simp_all
  next
    case False
    with Suc.prems have "0 < 2 * x" "2 * x < 1" by simp_all
    from Suc.IH [OF this] Suc.prems show ?thesis by (simp add: mult.assoc mult.left_commute)
  qed
qed

lemma exponent_range: "- 1022 \<le> exponent x \<and> exponent x \<le> 1023"
  using log2_up_le [of 1023 x] log2_down_le [of 1022 x] by (simp add: exponent_def)

lemma exponent_upper:
  assumes "0 < x" "x < 2 ^ 1024"
  shows "x < 2 powi (exponent x + 1)"
proof (cases "1 \<le> x")
  case True
  have "x < 2 ^ Suc 1023" using assms by simp
  from log2_up_bounds [OF True this] have "x < 2 * 2 ^ log2_up 1023 x" by blast
  also have "\<dots> = 2 powi (int (log2_up 1023 x) + 1)"
    by (simp add: power_int_add)
  finally show ?thesis using True by (simp add: exponent_def)
next
  case False
  then have lt: "x < 1" by simp
  define k where "k = log2_down 1022 x"
  from log2_down_bounds [OF assms(1) lt, of 1022] have "x * 2 ^ k < 2" by (simp add: k_def)
  then have "x < 2 / 2 ^ k" by (simp add: field_simps)
  also have "\<dots> = 2 powi (1 - int k)"
    by (simp add: power_int_diff)
  finally show ?thesis using False by (simp add: exponent_def k_def)
qed

lemma exponent_lower:
  assumes "0 < x"
  shows "2 powi exponent x \<le> x \<or> exponent x = - 1022"
proof (cases "1 \<le> x")
  case True
  show ?thesis
  proof (cases "x < 2 ^ Suc 1023")
    case lt: True
    from log2_up_bounds [OF True lt] have "2 ^ log2_up 1023 x \<le> x" by blast
    then show ?thesis using True by (simp add: exponent_def)
  next
    case False
    have "(2::real) ^ log2_up 1023 x \<le> 2 ^ 1023"
      using log2_up_le [of 1023 x] by (intro power_increasing) simp_all
    also have "\<dots> \<le> x" using False by simp
    finally show ?thesis using True by (simp add: exponent_def)
  qed
next
  case False
  then have lt: "x < 1" by simp
  define k where "k = log2_down 1022 x"
  from log2_down_bounds [OF assms lt, of 1022] have "1 \<le> x * 2 ^ k \<or> k = 1022"
    by (simp add: k_def)
  then show ?thesis
  proof
    assume "1 \<le> x * 2 ^ k"
    then have "1 / 2 ^ k \<le> x" by (simp add: field_simps)
    moreover have "2 powi (- int k) = 1 / (2::real) ^ k"
      by (simp add: power_int_minus field_simps)
    ultimately show ?thesis using False by (simp add: exponent_def k_def)
  next
    assume "k = 1022"
    then show ?thesis using False by (simp add: exponent_def k_def)
  qed
qed


lemma ulp_pos: "0 < ulp x"
  by (simp add: ulp_def)

lemma nearest_error: "\<bar>nearest x - x\<bar> \<le> ulp x / 2"
proof -
  have "nearest x - x = ulp x * (of_int (round_half_even (x / ulp x)) - x / ulp x)"
    using ulp_pos [of x] by (simp add: nearest_def field_simps)
  then have "\<bar>nearest x - x\<bar> = ulp x * \<bar>of_int (round_half_even (x / ulp x)) - x / ulp x\<bar>"
    using ulp_pos [of x] by (simp add: abs_mult)
  also have "\<dots> \<le> ulp x * (1 / 2)"
    using ulp_pos [of x] round_half_even_error [of "x / ulp x"]
    by (intro mult_left_mono) simp_all
  finally show ?thesis by simp
qed

lemma nearest_nonneg: "0 \<le> x \<Longrightarrow> 0 \<le> nearest x"
  using ulp_pos [of x] round_half_even_nonneg [of "x / ulp x"]
  by (simp add: nearest_def)

lemma ulp_le_max: "ulp x \<le> 2 ^ 971"
proof -
  have "exponent \<bar>x\<bar> - 52 \<le> 971" using exponent_range [of "\<bar>x\<bar>"] by simp
  then have "(2::real) powi (exponent \<bar>x\<bar> - 52) \<le> 2 powi 971"
    by (intro power_int_increasing) simp_all
  then show ?thesis by (simp add: ulp_def)
qed

lemma ulp_relative: "x \<noteq> 0 \<Longrightarrow> ulp x \<le> \<bar>x\<bar> / 2 ^ 52 \<or> ulp x = 1 / 2 ^ 1074"
proof -
  assume "x \<noteq> 0"
  then have pos: "0 < \<bar>x\<bar>" by simp
  from exponent_lower [OF pos] show ?thesis
  proof
    assume "2 powi exponent \<bar>x\<bar> \<le> \<bar>x\<bar>"
    moreover have "ulp x = 2 powi exponent \<bar>x\<bar> / 2 ^ 52"
      by (simp add: ulp_def power_int_diff)
    ultimately show ?thesis by (simp add: divide_right_mono)
  next
    assume "exponent \<bar>x\<bar> = - 1022"
    then have "ulp x = 2 powi (- 1074)" by (simp add: ulp_def)
    also have "\<dots> = 1 / 2 ^ 1074" by (simp add: power_int_minus field_simps)
    finally show ?thesis by simp
  qed
qed

lemma nearest_zero: "nearest 0 = 0"
  by (simp add: nearest_def round_half_even_def)

lemma round_double_Finite:
  "round_double x = Finite r \<Longrightarrow> r = nearest x \<and> \<bar>r\<bar> < 2 ^ 1024"
  by (cases "x = 0") (auto simp: round_double_def nearest_zero split: if_splits)

lemma round_double_error:
  assumes "round_double x = Finite r"
  shows "\<bar>r - x\<bar> \<le> \<bar>x\<bar> / 2 ^ 53 + 1 / 2 ^ 1075"
proof (cases "x = 0")
  case True
  with assms show ?thesis by (simp add: round_double_def)
next
  case False
  from round_double_Finite [OF assms] have r: "r = nearest x" by blast
  have e: "\<bar>r - x\<bar> \<le> ulp x / 2" unfolding r by (rule nearest_error)
  define a where "a = \<bar>x\<bar> / 2 ^ 53"
  define t where "t = (1::real) / 2 ^ 1075"
  have a0: "0 \<le> a" by (simp add: a_def)
  have t0: "0 \<le> t" by (simp add: t_def)
  have "ulp x / 2 \<le> a \<or> ulp x / 2 = t"
    using ulp_relative [OF False] by (auto simp: a_def t_def)
  with e a0 t0 have "\<bar>r - x\<bar> \<le> a + t" by linarith
  then show ?thesis by (simp only: a_def t_def)
qed

lemma round_double_nonneg: "0 \<le> x \<Longrightarrow> round_double x = Finite r \<Longrightarrow> 0 \<le> r"
  using nearest_nonneg round_double_Finite by blast

lemma round_double_finite:
  assumes "\<bar>x\<bar> + 2 ^ 970 < 2 ^ 1024"
  shows "\<exists>r. round_double x = Finite r"
proof -
  define h where "h = (2::real) ^ 970"
  define M where "M = (2::real) ^ 1024"
  have h0: "0 < h" by (simp add: h_def)
  have "ulp x \<le> 2 * h" using ulp_le_max [of x] by (simp add: h_def)
  with nearest_error [of x] have "\<bar>nearest x - x\<bar> \<le> h" by linarith
  moreover from assms have "\<bar>x\<bar> + h < M" by (simp only: h_def M_def)
  ultimately have "\<bar>nearest x\<bar> < M" "\<bar>x\<bar> < M" using h0 by linarith+
  then have "\<not> 2 ^ 1024 \<le> \<bar>x\<bar>" "\<not> 2 ^ 1024 \<le> \<bar>nearest x\<bar>"
    by (simp_all only: M_def not_le)
  then show ?thesis unfolding round_double_def by (simp only: if_False split: if_splits) auto
qed


lemma double_max:
  assumes "round_double r = Finite r"
  shows "\<bar>r\<bar> + 2 ^ 971 \<le> 2 ^ 1024"
proof (cases "r = 0")
  case True
  then show ?thesis by simp
next
  case False
  define u where "u = (2::real) ^ 971"
  have u0: "0 < u" by (simp add: u_def)
  have M: "(2::real) ^ 1024 = u * 2 ^ 53" "(2::real) ^ 1023 = u * 2 ^ 52"
    by (simp_all add: u_def)
  from round_double_Finite [OF assms] have n: "r = nearest r" and lt: "\<bar>r\<bar> < 2 ^ 1024" by blast+
  have pos: "0 < \<bar>r\<bar>" using False by simp
  show ?thesis
  proof (cases "exponent \<bar>r\<bar> = 1023")
    case True
    then have "ulp r = 2 powi 971" by (simp add: ulp_def)
    then have ur: "ulp r = u" by (simp add: u_def)
    define k where "k = round_half_even (r / ulp r)"
    have rk: "r = u * of_int k" using n by (simp add: nearest_def k_def ur)
    then have ak: "\<bar>r\<bar> = u * of_int \<bar>k\<bar>" using u0 by (simp add: abs_mult)
    from lt have "\<bar>r\<bar> < u * 2 ^ 53" by (simp only: M)
    then have "u * of_int \<bar>k\<bar> < u * 2 ^ 53" by (simp only: ak)
    then have "(of_int \<bar>k\<bar> :: real) < 2 ^ 53" using u0 by (simp only: mult_less_cancel_left_pos)
    then have "(of_int \<bar>k\<bar> :: real) < of_int (2 ^ 53)" by simp
    then have "\<bar>k\<bar> < 2 ^ 53" by (simp only: of_int_less_iff)
    then have "\<bar>k\<bar> \<le> 2 ^ 53 - 1" by simp
    then have "(of_int \<bar>k\<bar> :: real) \<le> of_int (2 ^ 53 - 1)" by (simp only: of_int_le_iff)
    then have "(of_int \<bar>k\<bar> :: real) \<le> 2 ^ 53 - 1" by simp
    with u0 have "u * of_int \<bar>k\<bar> \<le> u * (2 ^ 53 - 1)" by (intro mult_left_mono) simp_all
    then have "\<bar>r\<bar> + u \<le> u * 2 ^ 53" using ak by (simp add: algebra_simps)
    then show ?thesis by (simp only: M u_def [symmetric])
  next
    case False
    with exponent_range [of "\<bar>r\<bar>"] have "exponent \<bar>r\<bar> + 1 \<le> 1023" by simp
    then have "(2::real) powi (exponent \<bar>r\<bar> + 1) \<le> 2 powi 1023"
      by (intro power_int_increasing) simp_all
    moreover have "\<bar>r\<bar> < 2 powi (exponent \<bar>r\<bar> + 1)"
      by (rule exponent_upper [OF pos lt])
    ultimately have "\<bar>r\<bar> < 2 ^ 1023" by simp
    then have "\<bar>r\<bar> < u * 2 ^ 52" by (simp only: M)
    moreover have "u * 2 ^ 52 + u \<le> u * 2 ^ 53" using u0 by simp
    ultimately have "\<bar>r\<bar> + u \<le> u * 2 ^ 53" by linarith
    then show ?thesis by (simp only: M u_def [symmetric])
  qed
qed

subsection \<open>Properties of the rounding helper\<close>

text \<open>The rewrite rules that evaluate the float operations on numerals.\<close>

lemmas float_eval =
  round_double_def nearest_def ulp_def exponent_def round_half_even_def
  log2_up_numeral log2_down_numeral double_def Let_def

lemmas py_eval =
  int_truediv_def int_to_float_def int_times_float_def py_floordiv_def
  make_divisible_def scaled_channels_def

lemma double_09: "double 0.9 = Finite (8106479329266893 / 2 ^ 53)"
  by (simp add: float_eval)

lemma half_8: "int_truediv 8 2 = Inr (Finite 4)"
  by (simp add: float_eval py_eval)

lemma floor_div_mult_gt:
  fixes d :: int
  assumes "0 < d"
  shows "a - d < a div d * d"
proof -
  have "a = a div d * d + a mod d" by simp
  moreover have "a mod d < d" using assms by simp
  ultimately show ?thesis by linarith
qed

text \<open>The helper with divisor 8 on a nonnegative double: the rounded sum and product.\<close>

lemma make_divisible_8_steps:
  assumes "0 \<le> raw" and "is_double (Finite raw)"
  shows "\<exists>s p. round_double (raw + 4) = Finite s \<and>
               round_double (8106479329266893 / 2 ^ 53 * raw) = Finite p \<and>
               0 \<le> s \<and> 0 \<le> p \<and>
               \<bar>s - (raw + 4)\<bar> \<le> (raw + 4) / 2 ^ 53 + 1 / 2 ^ 1075 \<and>
               \<bar>p - 8106479329266893 / 2 ^ 53 * raw\<bar>
                  \<le> (8106479329266893 / 2 ^ 53 * raw) / 2 ^ 53 + 1 / 2 ^ 1075 \<and>
               make_divisible (Finite raw) 8 None =
                 Inr (let new_ch = max 8 (\<lfloor>s\<rfloor> div 8 * 8)
                      in if real_of_int new_ch < p then new_ch + 8 else new_ch)"
proof -
  define h where "h = (2::real) ^ 970"
  define M where "M = (2::real) ^ 1024"
  define c where "c = (8106479329266893::real) / 2 ^ 53"
  have h4: "4 < h" by (simp add: h_def)
  have Mh: "(2::real) ^ 971 = 2 * h" by (simp add: h_def)
  have c1: "0 \<le> c" "c \<le> 1" by (simp_all add: c_def)
  from assms(2) have "round_double raw = Finite raw" by simp
  from double_max [OF this] assms(1) have mx: "raw + 2 * h \<le> M"
    by (simp only: Mh M_def abs_of_nonneg)
  have "\<bar>raw + 4\<bar> + h < M" using mx h4 assms(1) by simp
  then have "\<bar>raw + 4\<bar> + 2 ^ 970 < 2 ^ 1024" by (simp only: h_def M_def)
  from round_double_finite [OF this] obtain s where s: "round_double (raw + 4) = Finite s" by blast
  have craw: "0 \<le> c * raw" "c * raw \<le> raw"
    using c1 assms(1) by (simp_all add: mult_left_le_one_le)
  then have "\<bar>c * raw\<bar> + h < M" using mx h4 by simp
  then have "\<bar>c * raw\<bar> + 2 ^ 970 < 2 ^ 1024" by (simp only: h_def M_def)
  from round_double_finite [OF this] obtain p where p: "round_double (c * raw) = Finite p" by blast
  have s0: "0 \<le> s" using round_double_nonneg [OF _ s] assms(1) by simp
  have p0: "0 \<le> p" using round_double_nonneg [OF craw(1) p] .
  have se: "\<bar>s - (raw + 4)\<bar> \<le> (raw + 4) / 2 ^ 53 + 1 / 2 ^ 1075"
    using round_double_error [OF s] assms(1) by simp
  have pe: "\<bar>p - c * raw\<bar> \<le> (c * raw) / 2 ^ 53 + 1 / 2 ^ 1075"
    using round_double_error [OF p] craw(1) by simp
  have md: "make_divisible (Finite raw) 8 None =
                 Inr (let new_ch = max 8 (\<lfloor>s\<rfloor> div 8 * 8)
                      in if real_of_int new_ch < p then new_ch + 8 else new_ch)"
    using s p s0
    by (simp add: make_divisible_def half_8 double_09 py_floordiv_def Let_def c_def)
  from s p s0 p0 se pe md show ?thesis unfolding c_def by blast
qed

text \<open>
  Claim C1, as stated, fails on the code. Take the double
  \<open>17.77777777777778 = 5003999585967218 / 2 ^ 48\<close>, which is the product
  \<open>32 * 0.5555555555555556\<close> the constructor computes for that width multiplier. The
  candidate is 16; the double product \<open>0.9 * raw\<close> is exactly 16.0, so the guard
  \<open>16 < 16.0\<close> does not fire and 16 is returned, although 16 is below the exact
  \<open>0.9 * raw\<close>.
\<close>

theorem make_divisible_8_counterexample:
  "is_double (Finite (5003999585967218 / 2 ^ 48)) \<and>
   int_times_float 32 (Finite (5003999585967218 / 2 ^ 53)) = Inr (Finite (5003999585967218 / 2 ^ 48)) \<and>
   make_divisible (Finite (5003999585967218 / 2 ^ 48)) 8 None = Inr 16 \<and>
   real_of_int 16 < 0.9 * (5003999585967218 / 2 ^ 48)"
proof -
  have a: "is_double (Finite (5003999585967218 / 2 ^ 48))"
    by (simp add: float_eval)
  have b: "int_times_float 32 (Finite (5003999585967218 / 2 ^ 53)) = Inr (Finite (5003999585967218 / 2 ^ 48))"
    by (simp add: float_eval py_eval)
  have c: "make_divisible (Finite (5003999585967218 / 2 ^ 48)) 8 None = Inr 16"
    by (simp add: float_eval py_eval)
  have d: "real_of_int 16 < 0.9 * (5003999585967218 / 2 ^ 48)" by simp
  from a b c d show ?thesis by blast
qed

text \<open>
  Claim C1, amended. For every double \<open>raw \<ge> 0\<close>, the helper called with divisor 8 and
  the default \<open>min_ch\<close> returns (it does not raise) a multiple of 8 that is at least 8,
  is not below the double product \<open>0.9 * raw\<close> the guard compares with, and is at least
  \<open>0.9 * raw * (1 - 2 ^ -52)\<close>, whether or not the guard fires; and it maps \<open>32 * 1.0\<close>
  to 32 and \<open>1280 * 1.0\<close> to 1280.
\<close>

theorem make_divisible_8_bound:
  assumes "0 \<le> raw" and "is_double (Finite raw)"
  shows "(\<exists>n. make_divisible (Finite raw) 8 None = Inr n \<and> 8 \<le> n \<and> 8 dvd n \<and>
              \<not> int_lt_float n (fmul (double 0.9) (Finite raw)) \<and>
              0.9 * raw * (1 - 1 / 2 ^ 52) \<le> real_of_int n) \<and>
         scaled_channels 32 (Finite 1) 8 = Inr 32 \<and>
         scaled_channels 1280 (Finite 1) 8 = Inr 1280"
proof -
  define c where "c = (8106479329266893::real) / 2 ^ 53"
  define t where "t = (1::real) / 2 ^ 1075"
  from make_divisible_8_steps [OF assms] obtain s p where
    s0: "0 \<le> s" and p0: "0 \<le> p"
    and se: "\<bar>s - (raw + 4)\<bar> \<le> (raw + 4) / 2 ^ 53 + t"
    and pe: "\<bar>p - c * raw\<bar> \<le> (c * raw) / 2 ^ 53 + t"
    and rp: "round_double (c * raw) = Finite p"
    and md: "make_divisible (Finite raw) 8 None =
                 Inr (let new_ch = max 8 (\<lfloor>s\<rfloor> div 8 * 8)
                      in if real_of_int new_ch < p then new_ch + 8 else new_ch)"
    unfolding c_def t_def by blast
  define new_ch where "new_ch = max 8 (\<lfloor>s\<rfloor> div 8 * 8)"
  define n where "n = (if real_of_int new_ch < p then new_ch + 8 else new_ch)"
  have mdn: "make_divisible (Finite raw) 8 None = Inr n"
    using md by (simp add: n_def new_ch_def Let_def)
  have t1: "0 \<le> t" "t \<le> 1 / 2 ^ 53" by (simp_all add: t_def)
  define cr where "cr = c * raw"
  have cr: "9 / 10 * raw \<le> cr" "cr \<le> 91 / 100 * raw"
    using assms(1) by (simp_all add: cr_def c_def mult_right_mono)
  have "\<lfloor>s\<rfloor> - 8 < \<lfloor>s\<rfloor> div 8 * 8" by (rule floor_div_mult_gt) simp
  then have "\<lfloor>s\<rfloor> - 7 \<le> new_ch" by (simp add: new_ch_def)
  then have "real_of_int \<lfloor>s\<rfloor> - 7 \<le> real_of_int new_ch" by linarith
  moreover have "s < real_of_int \<lfloor>s\<rfloor> + 1" by linarith
  ultimately have lower: "s - 8 < real_of_int new_ch" by linarith
  have ge8: "8 \<le> new_ch" by (simp add: new_ch_def)
  have dv: "8 dvd new_ch" by (simp add: new_ch_def max_def)
  have n8: "8 \<le> n" using ge8 by (simp add: n_def)
  have ndv: "8 dvd n" using dv by (simp add: n_def)
  have sl: "raw + 4 - (raw + 4) / 2 ^ 53 - t \<le> s" using se by linarith
  have pu: "p \<le> cr + cr / 2 ^ 53 + t" using pe unfolding cr_def by linarith
  have pl: "cr - cr / 2 ^ 53 - t \<le> p" using pe unfolding cr_def by linarith
  have p53: "(2::real) ^ 53 = 9007199254740992" and p52: "(2::real) ^ 52 = 4503599627370496"
    by simp_all
  have np: "p \<le> real_of_int n"
  proof (cases "real_of_int new_ch < p")
    case True
    then have "real_of_int n = real_of_int new_ch + 8" by (simp add: n_def)
    with lower sl pu cr t1 assms(1) show ?thesis unfolding p53 by argo
  next
    case False
    then show ?thesis by (simp add: n_def)
  qed
  have nb: "0.9 * raw * (1 - 1 / 2 ^ 52) \<le> real_of_int n"
  proof (cases "raw \<le> 8")
    case True
    have "real_of_int n \<ge> 8" using n8 by linarith
    with True assms(1) show ?thesis by simp
  next
    case False
    with np pl cr t1 show ?thesis unfolding p53 p52 by argo
  qed
  have fm: "fmul (double 0.9) (Finite raw) = Finite p"
    using rp by (simp add: double_09 c_def)
  have e1: "scaled_channels 32 (Finite 1) 8 = Inr 32"
    by (simp add: float_eval py_eval)
  have e2: "scaled_channels 1280 (Finite 1) 8 = Inr 1280"
    by (simp add: float_eval py_eval)
  from mdn n8 ndv np nb fm e1 e2 show ?thesis by auto
qed

text \<open>The bound at \<open>raw = 19\<close>, where the candidate 16 is below 17.1 and the guard fires.\<close>

theorem make_divisible_8_bound_witness:
  "(0::real) \<le> 19 \<and> is_double (Finite 19) \<and> make_divisible (Finite 19) 8 None = Inr 24 \<and>
   (\<exists>n. make_divisible (Finite 19) 8 None = Inr n \<and> 8 \<le> n \<and> 8 dvd n \<and>
        \<not> int_lt_float n (fmul (double 0.9) (Finite 19)) \<and>
        0.9 * 19 * (1 - 1 / 2 ^ 52) \<le> real_of_int n)"
proof -
  have h1: "(0::real) \<le> 19" by simp
  have h2: "is_double (Finite 19)" by (simp add: float_eval)
  have v: "make_divisible (Finite 19) 8 None = Inr 24"
    by (simp add: float_eval py_eval)
  show ?thesis using h1 h2 v make_divisible_8_bound [OF h1 h2] by blast
qed

lemmas spec_eval = round_channels_spec_def round_channels_with_def candidate_def Let_def

text \<open>
  Claim C2, as stated, fails on the code. At the double \<open>17.77777777777778\<close> the double
  product \<open>0.9 * raw\<close> is 16.0 and the code returns the candidate 16, while the
  reference algorithm, whose guard compares with the exact \<open>0.9 * raw\<close>, returns 24. At
  the double \<open>2 ^ 55 + 8\<close> the sum \<open>raw + 4\<close> is not a double; it rounds up to
  \<open>2 ^ 55 + 16\<close>, which the code returns, while the reference algorithm returns
  \<open>2 ^ 55 + 8\<close>.
\<close>

theorem make_divisible_spec_counterexample:
  "(0::real) \<le> 5003999585967218 / 2 ^ 48 \<and> (0::int) < 8 \<and>
   make_divisible (Finite (5003999585967218 / 2 ^ 48)) 8 None = Inr 16 \<and>
   round_channels_spec (5003999585967218 / 2 ^ 48) 8 None = 24 \<and>
   is_double (Finite (2 ^ 55 + 8)) \<and>
   make_divisible (Finite (2 ^ 55 + 8)) 8 None = Inr 36028797018963984 \<and>
   round_channels_spec (2 ^ 55 + 8) 8 None = 36028797018963976"
proof -
  have a: "make_divisible (Finite (5003999585967218 / 2 ^ 48)) 8 None = Inr 16"
    by (simp add: float_eval py_eval)
  have b: "round_channels_spec (5003999585967218 / 2 ^ 48) 8 None = 24"
    by (simp add: spec_eval)
  have c: "is_double (Finite (2 ^ 55 + 8))"
    by (simp add: float_eval)
  have d: "make_divisible (Finite (2 ^ 55 + 8)) 8 None = Inr 36028797018963984"
    by (simp add: float_eval py_eval)
  have e: "round_channels_spec (2 ^ 55 + 8) 8 None = 36028797018963976"
    by (simp add: spec_eval)
  from a b c d e show ?thesis by simp
qed

text \<open>
  Claim C2, amended. For every \<open>raw \<ge> 0\<close> and every positive divisor with
  \<open>raw + divisor/2 \<le> 2 ^ 1023\<close>, and every choice of \<open>min_ch\<close> (unset or set), the helper
  returns what the reference algorithm computes from the double sum \<open>s\<close> of \<open>raw\<close> and
  \<open>divisor/2\<close> and the double product \<open>p\<close> of 0.9 and \<open>raw\<close>: the candidate is
  \<open>max(min_channels, floor(s / divisor) * divisor)\<close>, and one divisor is added when
  the candidate is below \<open>p\<close>. It returns exactly what the specification's algorithm
  returns whenever the sum is exact and the candidate compares with \<open>p\<close> as it does
  with the exact \<open>0.9 * raw\<close>.
\<close>

theorem make_divisible_refines_spec:
  assumes "0 \<le> raw" and "0 < divisor" and "raw + real_of_int divisor / 2 \<le> 2 ^ 1023"
  shows "\<exists>h s p.
           int_truediv divisor 2 = Inr (Finite h) \<and>
           fadd (Finite raw) (Finite h) = Finite s \<and>
           fmul (double 0.9) (Finite raw) = Finite p \<and>
           make_divisible (Finite raw) divisor m = Inr (round_channels_with s p divisor m) \<and>
           (s = raw + real_of_int divisor / 2 \<and>
            (real_of_int (candidate s divisor m) < p
               \<longleftrightarrow> real_of_int (candidate s divisor m) < 0.9 * raw)
            \<longrightarrow> make_divisible (Finite raw) divisor m = Inr (round_channels_spec raw divisor m))"
proof -
  define B where "B = (2::real) ^ 1023"
  define g where "g = (2::real) ^ 970"
  define c where "c = (8106479329266893::real) / 2 ^ 53"
  have Bg: "B = g * 2 ^ 53" "(2::real) ^ 1024 = 2 * B" "1 \<le> g"
    by (simp_all add: B_def g_def)
  have g3: "3 * g < B" using Bg(1,3) by simp
  define x where "x = real_of_int divisor / 2"
  have x0: "0 \<le> x" using assms(2) by (simp add: x_def)
  have xB: "x \<le> B" "raw \<le> B" using assms(1,3) x0 by (simp_all add: x_def B_def)
  have "\<bar>x\<bar> + g < 2 * B" using x0 xB g3 Bg(3) by simp
  then have "\<bar>x\<bar> + 2 ^ 970 < 2 ^ 1024" by (simp only: g_def Bg(2))
  from round_double_finite [OF this] obtain h where h: "round_double x = Finite h" by blast
  have h0: "0 \<le> h" by (rule round_double_nonneg [OF x0 h])
  have "\<bar>h - x\<bar> \<le> \<bar>x\<bar> / 2 ^ 53 + 1 / 2 ^ 1075" by (rule round_double_error [OF h])
  moreover have "\<bar>x\<bar> / 2 ^ 53 \<le> g" using x0 xB(1) by (simp add: Bg(1) field_simps)
  moreover have "(1::real) / 2 ^ 1075 \<le> 1" by simp
  ultimately have hx: "h \<le> x + g + 1" by linarith
  have td: "int_truediv divisor 2 = Inr (Finite h)"
    using h by (simp add: int_truediv_def x_def)
  have "raw + x \<le> B" using assms(3) by (simp add: x_def B_def)
  with hx h0 assms(1) Bg(3) g3 have "\<bar>raw + h\<bar> + g < 2 * B" by simp
  then have "\<bar>raw + h\<bar> + 2 ^ 970 < 2 ^ 1024" by (simp only: g_def Bg(2))
  from round_double_finite [OF this] obtain s where s: "round_double (raw + h) = Finite s" by blast
  have s0: "0 \<le> s" using round_double_nonneg [OF _ s] assms(1) h0 by simp
  have c1: "0 \<le> c" "c \<le> 1" by (simp_all add: c_def)
  have craw: "0 \<le> c * raw" "c * raw \<le> raw"
    using c1 assms(1) by (simp_all add: mult_left_le_one_le)
  then have "\<bar>c * raw\<bar> + g < 2 * B" using xB(2) g3 Bg(3) by simp
  then have "\<bar>c * raw\<bar> + 2 ^ 970 < 2 ^ 1024" by (simp only: g_def Bg(2))
  from round_double_finite [OF this] obtain p where p: "round_double (c * raw) = Finite p" by blast
  have fa: "fadd (Finite raw) (Finite h) = Finite s" using s by simp
  have fm: "fmul (double 0.9) (Finite raw) = Finite p" using p by (simp add: double_09 c_def)
  have fl: "\<lfloor>s / real_of_int divisor\<rfloor> = \<lfloor>s\<rfloor> div divisor"
    using assms(2) by (simp add: floor_divide_real_eq_div)
  have md: "make_divisible (Finite raw) divisor m = Inr (round_channels_with s p divisor m)"
    unfolding make_divisible_def Let_def td sum.case fa fm
    using assms(2) s0
    by (simp add: py_floordiv_def round_channels_with_def candidate_def fl Let_def)
  have agree: "make_divisible (Finite raw) divisor m = Inr (round_channels_spec raw divisor m)"
    if "s = raw + real_of_int divisor / 2"
      and "real_of_int (candidate s divisor m) < p
            \<longleftrightarrow> real_of_int (candidate s divisor m) < 0.9 * raw"
    using that md by (simp add: round_channels_spec_def round_channels_with_def Let_def)
  from td fa fm md agree show ?thesis by blast
qed

theorem make_divisible_refines_spec_witness:
  "(0::real) \<le> 19 \<and> (0::int) < 8 \<and> (19::real) + real_of_int 8 / 2 \<le> 2 ^ 1023 \<and>
   make_divisible (Finite 19) 8 (Some 16) = Inr (round_channels_spec 19 8 (Some 16)) \<and>
   round_channels_spec 19 8 (Some 16) = 24"
proof -
  have h1: "(0::real) \<le> 19" by simp
  have h2: "(0::int) < 8" by simp
  have h3: "(19::real) + real_of_int 8 / 2 \<le> 2 ^ 1023" by simp
  have v: "round_channels_spec 19 8 (Some 16) = 24" by (simp add: spec_eval)
  have w: "make_divisible (Finite 19) 8 (Some 16) = Inr 24" by (simp add: float_eval py_eval)
  from make_divisible_refines_spec [OF h1 h2 h3, of "Some 16"] obtain h s p where
    "make_divisible (Finite 19) 8 (Some 16) = Inr (round_channels_with s p 8 (Some 16))"
    by blast
  with h1 h2 h3 v w show ?thesis by simp
qed

text \<open>
  Claim C8. For the width multipliers 0.5, 1.0 and 1.4 and granularity 8, the stem
  channel count \<open>_make_divisible(32 * alpha, 8)\<close> is 16, 32 and 48: it does not decrease
  as the multiplier grows, and each value is a multiple of 8.
\<close>

theorem stem_channels_monotone:
  "\<forall>a \<in> {0.5, 1.0, 1.4::real}. \<forall>b \<in> {0.5, 1.0, 1.4::real}. a \<le> b \<longrightarrow>
     (\<exists>x y. scaled_channels 32 (double a) 8 = Inr x \<and> scaled_channels 32 (double b) 8 = Inr y \<and>
            x \<le> y \<and> 8 dvd x \<and> 8 dvd y)"
proof -
  have e1: "scaled_channels 32 (double 0.5) 8 = Inr 16"
    by (simp add: float_eval py_eval)
  have e2: "scaled_channels 32 (double 1.0) 8 = Inr 32"
    by (simp add: float_eval py_eval)
  have e3: "scaled_channels 32 (double 1.4) 8 = Inr 48"
    by (simp add: float_eval py_eval)
  show ?thesis using e1 e2 e3 by simp
qed

theorem stem_channels_monotone_witness:
  "(0.5::real) \<in> {0.5, 1.0, 1.4} \<and> (1.4::real) \<in> {0.5, 1.0, 1.4} \<and> (0.5::real) \<le> 1.4 \<and>
   scaled_channels 32 (double 0.5) 8 = Inr 16 \<and> scaled_channels 32 (double 1.4) 8 = Inr 48 \<and>
   (\<exists>x y. scaled_channels 32 (double 0.5) 8 = Inr x \<and> scaled_channels 32 (double 1.4) 8 = Inr y \<and>
          x \<le> y \<and> 8 dvd x \<and> 8 dvd y)"
proof -
  have m1: "(0.5::real) \<in> {0.5, 1.0, 1.4}" by simp
  have m2: "(1.4::real) \<in> {0.5, 1.0, 1.4}" by simp
  have le: "(0.5::real) \<le> 1.4" by simp
  have e1: "scaled_channels 32 (double 0.5) 8 = Inr 16"
    by (simp add: float_eval py_eval)
  have e3: "scaled_channels 32 (double 1.4) 8 = Inr 48"
    by (simp add: float_eval py_eval)
  have "\<exists>x y. scaled_channels 32 (double 0.5) 8 = Inr x \<and> scaled_channels 32 (double 1.4) 8 = Inr y \<and>
          x \<le> y \<and> 8 dvd x \<and> 8 dvd y"
    using stem_channels_monotone m1 m2 le by blast
  with m1 m2 le e1 e3 show ?thesis by blast
qed

subsection \<open>Blocks\<close>

lemma convs_ConvBNReLU:
  "convs (ConvBNReLU i o' k s g) = [Conv2d i o' k s ((k - 1) div 2) g False]"
  by (simp add: convs_def modules_def ConvBNReLU_def)

lemma convs_InvertedResidual:
  "convs (InvertedResidual i o' s t) =
     (if t \<noteq> 1 then [Conv2d i (i * t) 1 1 0 1 False] else []) @
     [Conv2d (i * t) (i * t) 3 s 1 (i * t) False, Conv2d (i * t) o' 1 1 0 1 False]"
  by (simp add: convs_def modules_def InvertedResidual_def ConvBNReLU_def Let_def)

lemma block_in_InvertedResidual: "block_in (InvertedResidual i o' s t) = Some i"
  by (simp add: block_in_def convs_InvertedResidual)

lemma block_out_InvertedResidual: "block_out (InvertedResidual i o' s t) = Some o'"
  by (simp add: block_out_def convs_InvertedResidual)

lemma block_stride_InvertedResidual: "block_stride (InvertedResidual i o' s t) = Some s"
  by (simp add: block_stride_def convs_InvertedResidual)

lemma block_out_ConvBNReLU: "block_out (ConvBNReLU i o' k s g) = Some o'"
  by (simp add: block_out_def convs_ConvBNReLU)

lemma is_InvertedResidual_InvertedResidual: "is_InvertedResidual (InvertedResidual i o' s t)"
  by (simp add: InvertedResidual_def Let_def)

lemma is_ConvBNReLU_ConvBNReLU: "is_ConvBNReLU (ConvBNReLU i o' k s g)"
  by (simp add: ConvBNReLU_def)

subsection \<open>The inverted residual block\<close>

text \<open>
  Claim C3. For a block built from \<open>(in_channel, out_channel, stride, expand_ratio)\<close>
  the stored flag \<open>use_shortcut\<close> is true iff \<open>stride = 1\<close> and
  \<open>in_channel = out_channel\<close>. The forward pass reads only the stored flag (third
  conjunct: for any stored flag \<open>u\<close> and pipeline \<open>c\<close>), and returns
  \<open>x + conv(x)\<close> when it is true and \<open>conv(x)\<close> otherwise. A block with
  channels 24, 24 and stride 1 uses the shortcut; one with channels 24, 32 and stride 1,
  and any block with stride 2, does not.
\<close>

theorem shortcut_gating:
  "use_shortcut (InvertedResidual in_channel out_channel stride expand_ratio) =
     (stride = 1 \<and> in_channel = out_channel) \<and>
   InvertedResidual_forward call add (InvertedResidual in_channel out_channel stride expand_ratio) x =
     (if stride = 1 \<and> in_channel = out_channel
      then add x (call (conv (InvertedResidual in_channel out_channel stride expand_ratio)) x)
      else call (conv (InvertedResidual in_channel out_channel stride expand_ratio)) x) \<and>
   InvertedResidual_forward call add (InvertedResidual_module u c) x =
     (if u then add x (call c x) else call c x) \<and>
   use_shortcut (InvertedResidual 24 24 1 expand_ratio) \<and>
   \<not> use_shortcut (InvertedResidual 24 32 1 expand_ratio) \<and>
   \<not> use_shortcut (InvertedResidual in_channel out_channel 2 expand_ratio)"
  by (simp add: InvertedResidual_def InvertedResidual_forward_def Let_def)

theorem shortcut_gating_witness:
  "use_shortcut (InvertedResidual 24 24 1 6) \<and>
   InvertedResidual_forward (\<lambda>m v. 2 * v) (+) (InvertedResidual 24 24 1 6) (5::int) = 15 \<and>
   InvertedResidual_forward (\<lambda>m v. 2 * v) (+) (InvertedResidual 24 32 1 6) (5::int) = 10 \<and>
   InvertedResidual_forward (\<lambda>m v. 2 * v) (+) (InvertedResidual 24 24 2 6) (5::int) = 10"
  using shortcut_gating [of 24 24 1 6 "\<lambda>m v. 2 * v" "(+)" "5::int"]
        shortcut_gating [of 24 32 1 6 "\<lambda>m v. 2 * v" "(+)" "5::int"]
        shortcut_gating [of 24 24 2 6 "\<lambda>m v. 2 * v" "(+)" "5::int"]
  by simp

text \<open>
  Claim C6. In every block the hidden width is \<open>in_channel * expand_ratio\<close>; the 1x1
  expansion unit is in the pipeline iff \<open>expand_ratio \<noteq> 1\<close> (the pipeline has four
  units then, and three otherwise); the depthwise unit works on the hidden width; and
  the pipeline ends with the 1x1 convolution without bias followed by the
  normalization, so that also among the primitive layers in execution order nothing,
  and in particular no nonlinearity, comes after them.
\<close>

theorem block_pipeline:
  "let b = InvertedResidual in_channel out_channel stride expand_ratio;
       hidden_channel = in_channel * expand_ratio;
       ls = layers (conv b);
       flat = map snd (modules (conv b))
   in is_Sequential (conv b) \<and>
      (ConvBNReLU in_channel hidden_channel 1 1 1 \<in> set ls) = (expand_ratio \<noteq> 1) \<and>
      length ls = (if expand_ratio \<noteq> 1 then 4 else 3) \<and>
      (expand_ratio \<noteq> 1 \<longrightarrow> ls ! 0 = ConvBNReLU in_channel hidden_channel 1 1 1) \<and>
      ls ! (length ls - 3) = ConvBNReLU hidden_channel hidden_channel 3 stride hidden_channel \<and>
      drop (length ls - 2) ls = [Conv2d hidden_channel out_channel 1 1 0 1 False, BatchNorm2d out_channel] \<and>
      drop (length flat - 2) flat = [Conv2d hidden_channel out_channel 1 1 0 1 False, BatchNorm2d out_channel]"
  by (simp add: InvertedResidual_def ConvBNReLU_def Let_def modules_def)

theorem block_pipeline_witness:
  "(6::int) \<noteq> 1 \<and>
   layers (conv (InvertedResidual 16 24 2 6)) =
     [ConvBNReLU 16 96 1 1 1, ConvBNReLU 96 96 3 2 96, Conv2d 96 24 1 1 0 1 False, BatchNorm2d 24] \<and>
   layers (conv (InvertedResidual 32 16 1 1)) =
     [ConvBNReLU 32 32 3 1 32, Conv2d 32 16 1 1 0 1 False, BatchNorm2d 16] \<and>
   layers (conv (InvertedResidual 16 24 2 6)) ! 0 = ConvBNReLU 16 (16 * 6) 1 1 1"
proof -
  have a: "layers (conv (InvertedResidual 16 24 2 6)) =
     [ConvBNReLU 16 96 1 1 1, ConvBNReLU 96 96 3 2 96, Conv2d 96 24 1 1 0 1 False, BatchNorm2d 24]"
    by (simp add: InvertedResidual_def Let_def)
  have b: "layers (conv (InvertedResidual 32 16 1 1)) =
     [ConvBNReLU 32 32 3 1 32, Conv2d 32 16 1 1 0 1 False, BatchNorm2d 16]"
    by (simp add: InvertedResidual_def Let_def)
  have c: "layers (conv (InvertedResidual 16 24 2 6)) ! 0 = ConvBNReLU 16 (16 * 6) 1 1 1"
    using block_pipeline [of 16 24 2 6] by (simp add: Let_def)
  from a b c show ?thesis by simp
qed

subsection \<open>The two loops and the constructor\<close>

lemma construct_Inr: "construct m = Inr b \<Longrightarrow> b = m"
  by (auto simp: construct_def split: option.splits)

lemma construct_ConvBNReLU:
  assumes "0 < g" "i mod g = 0" "o' mod g = 0" "0 \<le> o'" "0 \<le> i" "0 \<le> k"
  shows "construct (ConvBNReLU i o' k s g) = Inr (ConvBNReLU i o' k s g)"
proof -
  have "0 \<le> i div g" using assms(1,5) by (simp add: pos_imp_zdiv_nonneg_iff)
  with assms show ?thesis by (simp add: construct_def ConvBNReLU_def)
qed

lemma first_error_pipeline:
  assumes "0 < i" "0 < o'" "0 < h"
  shows "first_error (primitive_layers (InvertedResidual_module u (Sequential
           ((if e then [ConvBNReLU i h 1 1 1] else []) @
            [ConvBNReLU h h 3 s h, Conv2d h o' 1 1 0 1 False, BatchNorm2d o'])))) = None"
proof -
  have "h div h = 1" "h mod h = 0" using assms(3) by simp_all
  moreover have "\<not> h \<le> 0" "\<not> h < 0" "\<not> i < 0" "\<not> o' < 0" using assms by linarith+
  ultimately show ?thesis by (simp add: ConvBNReLU_def)
qed

lemma construct_InvertedResidual:
  assumes "0 < i" "0 < o'" "0 < t"
  shows "construct (InvertedResidual i o' s t) = Inr (InvertedResidual i o' s t)"
proof -
  define h where "h = i * t"
  have h: "0 < h" using assms(1,3) by (simp add: h_def)
  have "InvertedResidual i o' s t = InvertedResidual_module (s = 1 \<and> i = o') (Sequential
           ((if t \<noteq> 1 then [ConvBNReLU i h 1 1 1] else []) @
            [ConvBNReLU h h 3 s h, Conv2d h o' 1 1 0 1 False, BatchNorm2d o']))"
    by (simp add: InvertedResidual_def Let_def h_def)
  then show ?thesis
    using first_error_pipeline [OF assms(1,2) h] by (simp add: construct_def)
qed

lemma py_range_pos: "0 < n \<Longrightarrow> py_range n = 0 # map int [1..<nat n]"
  by (simp add: py_range_def upt_conv_Cons)

lemma py_range_nonpos: "n \<le> 0 \<Longrightarrow> py_range n = []"
  by (simp add: py_range_def)

lemma chain_append: "chain a xs b \<Longrightarrow> chain b ys c \<Longrightarrow> chain a (xs @ ys) c"
  by (induction xs arbitrary: a) (auto split: option.splits)

lemma chain_replicate: "chain c (replicate k (InvertedResidual c c s t)) c"
  by (induction k) (simp_all add: block_in_InvertedResidual block_out_InvertedResidual)

lemma chain_nth:
  "chain c bs c' \<Longrightarrow> k < length bs \<Longrightarrow>
   block_in (bs ! k) \<noteq> None \<and>
   block_in (bs ! k) = (if k = 0 then Some c else block_out (bs ! (k - 1)))"
proof (induction bs arbitrary: c k)
  case Nil
  then show ?case by simp
next
  case (Cons b bs)
  show ?case
  proof (cases k)
    case 0
    with Cons.prems show ?thesis by simp
  next
    case (Suc j)
    from Cons.prems obtain d where d: "block_out b = Some d" "chain d bs c'"
      by (auto split: option.splits)
    from Cons.prems Suc have j: "j < length bs" by simp
    from Cons.IH [OF d(2) j]
    have ih1: "block_in (bs ! j) \<noteq> None"
      and ih2: "block_in (bs ! j) = (if j = 0 then Some d else block_out (bs ! (j - 1)))"
      by blast+
    have "block_in ((b # bs) ! k) = block_in (bs ! j)" using Suc by simp
    moreover have "(if j = 0 then Some d else block_out (bs ! (j - 1))) = block_out ((b # bs) ! (k - 1))"
      using Suc d(1) by (cases j) simp_all
    ultimately show ?thesis using ih1 ih2 Suc by simp
  qed
qed

lemma stage_loop_later:
  assumes "\<forall>i \<in> set xs. i \<noteq> 0"
    and "stage_loop t oc s xs (oc, fs) = Inr (ic', fs')"
  shows "ic' = oc \<and> fs' = fs @ replicate (length xs) (InvertedResidual oc oc 1 t)"
  using assms
proof (induction xs arbitrary: fs)
  case Nil
  then show ?case by simp
next
  case (Cons x xs)
  from Cons.prems obtain b where
    b: "construct (InvertedResidual oc oc 1 t) = Inr b"
    and rest: "stage_loop t oc s xs (oc, fs @ [b]) = Inr (ic', fs')"
    by (auto split: sum.splits)
  from construct_Inr [OF b] have "b = InvertedResidual oc oc 1 t" .
  with Cons.IH [OF _ rest] Cons.prems(1) show ?case
    by (simp add: replicate_append_same)
qed

lemma stage_loop_blocks:
  assumes "stage_loop t oc s (py_range n) (ic, fs) = Inr (ic', fs')"
  shows "(ic', fs') =
     (if n \<le> 0 then (ic, fs)
      else (oc, fs @ InvertedResidual ic oc s t # replicate (nat n - 1) (InvertedResidual oc oc 1 t)))"
proof (cases "n \<le> 0")
  case True
  with assms show ?thesis by (simp add: py_range_nonpos)
next
  case False
  then have pos: "0 < n" by simp
  define xs where "xs = map int [1..<nat n]"
  have nz: "\<forall>i \<in> set xs. i \<noteq> 0" by (auto simp: xs_def)
  have len: "length xs = nat n - 1" by (simp add: xs_def)
  from assms have "stage_loop t oc s (0 # xs) (ic, fs) = Inr (ic', fs')"
    by (simp only: py_range_pos [OF pos] xs_def)
  then obtain b where
    b: "construct (InvertedResidual ic oc s t) = Inr b"
    and rest: "stage_loop t oc s xs (oc, fs @ [b]) = Inr (ic', fs')"
    by (auto split: sum.splits)
  from construct_Inr [OF b] have b': "b = InvertedResidual ic oc s t" .
  from stage_loop_later [OF nz rest] b' len False show ?thesis by simp
qed

lemma stage_loop_ok:
  assumes "0 < ic" "0 < oc" "0 < t"
  shows "stage_loop t oc s (py_range n) (ic, fs) =
     Inr (if n \<le> 0 then (ic, fs)
          else (oc, fs @ InvertedResidual ic oc s t # replicate (nat n - 1) (InvertedResidual oc oc 1 t)))"
proof -
  have later: "stage_loop t oc s xs (oc, gs) = Inr (oc, gs @ replicate (length xs) (InvertedResidual oc oc 1 t))"
    if "\<forall>i \<in> set xs. i \<noteq> 0" for xs gs
    using that
  proof (induction xs arbitrary: gs)
    case Nil
    then show ?case by simp
  next
    case (Cons x xs)
    then show ?case
      using construct_InvertedResidual [OF assms(2) assms(2) assms(3), of 1]
      by (simp add: replicate_append_same)
  qed
  show ?thesis
  proof (cases "n \<le> 0")
    case True
    then show ?thesis by (simp add: py_range_nonpos)
  next
    case False
    then have pos: "0 < n" by simp
    have nz: "\<forall>i \<in> set (map int [1..<nat n]). i \<noteq> 0" by auto
    show ?thesis
      using False construct_InvertedResidual [OF assms, of s] later [OF nz]
      by (simp add: py_range_pos [OF pos])
  qed
qed

lemma build_stages_blocks:
  "build_stages alpha rn settings (ic, fs) = Inr (ic', fs') \<Longrightarrow>
   \<exists>bs. fs' = fs @ bs \<and> chain ic bs ic' \<and>
        (\<forall>b \<in> set bs. \<exists>i o' s t. b = InvertedResidual i o' s t) \<and>
        map block_stride bs = concat (map stage_strides settings)"
proof (induction settings arbitrary: ic fs)
  case Nil
  then show ?case by simp
next
  case (Cons st settings)
  obtain t c n s where st: "st = (t, c, n, s)" by (cases st) auto
  from Cons.prems st obtain oc ic1 fs1 where
    oc: "scaled_channels c alpha rn = Inr oc" and
    loop: "stage_loop t oc s (py_range n) (ic, fs) = Inr (ic1, fs1)" and
    rest: "build_stages alpha rn settings (ic1, fs1) = Inr (ic', fs')"
    by (auto split: sum.splits)
  note closed = stage_loop_blocks [OF loop]
  show ?case
  proof (cases "n \<le> 0")
    case True
    with closed rest have "build_stages alpha rn settings (ic, fs) = Inr (ic', fs')" by simp
    from Cons.IH [OF this] True st show ?thesis
      by (simp add: stage_strides_def)
  next
    case False
    define stage where
      "stage = InvertedResidual ic oc s t # replicate (nat n - 1) (InvertedResidual oc oc 1 t)"
    from False closed rest have "build_stages alpha rn settings (oc, fs @ stage) = Inr (ic', fs')"
      by (simp add: stage_def)
    from Cons.IH [OF this] obtain bs where
      bs: "fs' = (fs @ stage) @ bs" "chain oc bs ic'"
          "\<forall>b \<in> set bs. \<exists>i o' s t. b = InvertedResidual i o' s t"
          "map block_stride bs = concat (map stage_strides settings)"
      by blast
    have c1: "chain ic stage oc"
      by (simp add: stage_def block_in_InvertedResidual block_out_InvertedResidual chain_replicate)
    have c2: "chain ic (stage @ bs) ic'"
      by (rule chain_append [OF c1 bs(2)])
    have all: "\<forall>b \<in> set (stage @ bs). \<exists>i o' s t. b = InvertedResidual i o' s t"
    proof
      fix b assume "b \<in> set (stage @ bs)"
      then consider "b = InvertedResidual ic oc s t" | "b = InvertedResidual oc oc 1 t" | "b \<in> set bs"
        by (auto simp: stage_def)
      then show "\<exists>i o' s t. b = InvertedResidual i o' s t"
        using bs(3) by cases blast+
    qed
    have str: "map block_stride (stage @ bs) = concat (map stage_strides (st # settings))"
      using False bs(4)
      by (simp add: stage_def st stage_strides_def block_stride_InvertedResidual)
    from bs(1) c2 all str show ?thesis by auto
  qed
qed

lemma MobileNetV2_Inr:
  assumes "MobileNetV2 nc alpha rn = Inr m"
  shows "\<exists>ic lc ic' fs.
           scaled_channels 32 alpha rn = Inr ic \<and>
           scaled_channels 1280 alpha rn = Inr lc \<and>
           build_stages alpha rn inverted_residual_setting (ic, [ConvBNReLU 3 ic 3 2 1]) = Inr (ic', fs) \<and>
           net m = MobileNetV2_module (Sequential (fs @ [ConvBNReLU ic' lc 1 1 1]))
                     (AdaptiveAvgPool2d 1 1) (Sequential [Dropout 0.2, Linear lc nc]) \<and>
           parameters m = init_weights (modules (net m)) (allocate (net m))"
proof -
  from assms obtain ic lc conv1 ic' fs conv_last cls where
    a: "scaled_channels 32 alpha rn = Inr ic" "scaled_channels 1280 alpha rn = Inr lc"
    and c1: "construct (ConvBNReLU 3 ic 3 2 1) = Inr conv1"
    and b: "build_stages alpha rn inverted_residual_setting (ic, [conv1]) = Inr (ic', fs)"
    and c2: "construct (ConvBNReLU ic' lc 1 1 1) = Inr conv_last"
    and c3: "construct (Sequential [Dropout 0.2, Linear lc nc]) = Inr cls"
    and m: "m = \<lparr>net = MobileNetV2_module (Sequential (fs @ [conv_last])) (AdaptiveAvgPool2d 1 1) cls,
               parameters = init_weights
                 (modules (MobileNetV2_module (Sequential (fs @ [conv_last])) (AdaptiveAvgPool2d 1 1) cls))
                 (allocate (MobileNetV2_module (Sequential (fs @ [conv_last])) (AdaptiveAvgPool2d 1 1) cls))\<rparr>"
    by (auto simp: MobileNetV2_def Let_def split: sum.splits)
  from construct_Inr [OF c1] construct_Inr [OF c2] construct_Inr [OF c3]
  have e: "conv1 = ConvBNReLU 3 ic 3 2 1" "conv_last = ConvBNReLU ic' lc 1 1 1"
    "cls = Sequential [Dropout 0.2, Linear lc nc]" by simp_all
  from a b m show ?thesis unfolding e by simp
qed

lemma MobileNetV2_features:
  assumes "MobileNetV2 nc alpha rn = Inr m"
  shows "\<exists>ic lc ic' bs.
           scaled_channels 32 alpha rn = Inr ic \<and>
           scaled_channels 1280 alpha rn = Inr lc \<and>
           layers (features (net m)) = ConvBNReLU 3 ic 3 2 1 # bs @ [ConvBNReLU ic' lc 1 1 1] \<and>
           classifier (net m) = Sequential [Dropout 0.2, Linear lc nc] \<and>
           avgpool (net m) = AdaptiveAvgPool2d 1 1 \<and>
           is_MobileNetV2 (net m) \<and> is_Sequential (features (net m)) \<and>
           chain ic bs ic' \<and>
           (\<forall>b \<in> set bs. \<exists>i o' s t. b = InvertedResidual i o' s t) \<and>
           map block_stride bs = concat (map stage_strides inverted_residual_setting)"
proof -
  from MobileNetV2_Inr [OF assms] obtain ic lc ic' fs where
    a: "scaled_channels 32 alpha rn = Inr ic"
       "scaled_channels 1280 alpha rn = Inr lc"
       "build_stages alpha rn inverted_residual_setting (ic, [ConvBNReLU 3 ic 3 2 1]) = Inr (ic', fs)"
       "net m = MobileNetV2_module (Sequential (fs @ [ConvBNReLU ic' lc 1 1 1]))
                     (AdaptiveAvgPool2d 1 1) (Sequential [Dropout 0.2, Linear lc nc])"
    by blast
  from build_stages_blocks [OF a(3)] obtain bs where
    b: "fs = [ConvBNReLU 3 ic 3 2 1] @ bs" "chain ic bs ic'"
       "\<forall>b \<in> set bs. \<exists>i o' s t. b = InvertedResidual i o' s t"
       "map block_stride bs = concat (map stage_strides inverted_residual_setting)"
    by blast
  from a(4) b(1) have
    "layers (features (net m)) = ConvBNReLU 3 ic 3 2 1 # bs @ [ConvBNReLU ic' lc 1 1 1]"
    "classifier (net m) = Sequential [Dropout 0.2, Linear lc nc]"
    "avgpool (net m) = AdaptiveAvgPool2d 1 1"
    "is_MobileNetV2 (net m)" "is_Sequential (features (net m))"
    by simp_all
  with a(1,2) b(2,3,4) show ?thesis by blast
qed

lemma stage_strides_setting:
  "concat (map stage_strides inverted_residual_setting) =
     map Some [1, 2, 1, 2, 1, 1, 2, 1, 1, 1, 1, 1, 1, 2, 1, 1, 1]"
  by (simp add: inverted_residual_setting_def stage_strides_def eval_nat_numeral)

subsection \<open>The default configuration and three rejected ones\<close>

lemma setting_channels:
  "map (\<lambda>(t, c, n, s). scaled_channels c (Finite 1) 8) inverted_residual_setting =
     map Inr [16, 24, 32, 64, 96, 160, 320]"
  by (simp add: inverted_residual_setting_def float_eval py_eval)

lemma build_stages_default:
  "build_stages (Finite 1) 8 inverted_residual_setting (32, [ConvBNReLU 3 32 3 2 1]) =
     Inr (320, butlast default_features)"
proof -
  have sc: "scaled_channels 16 (Finite 1) 8 = Inr 16" "scaled_channels 24 (Finite 1) 8 = Inr 24"
    "scaled_channels 32 (Finite 1) 8 = Inr 32" "scaled_channels 64 (Finite 1) 8 = Inr 64"
    "scaled_channels 96 (Finite 1) 8 = Inr 96" "scaled_channels 160 (Finite 1) 8 = Inr 160"
    "scaled_channels 320 (Finite 1) 8 = Inr 320"
    by (simp_all add: float_eval py_eval)
  show ?thesis
    by (simp add: inverted_residual_setting_def sc stage_loop_ok eval_nat_numeral
          default_features_def)
qed

lemma MobileNetV2_default:
  assumes "0 \<le> nc"
  shows "MobileNetV2 nc (Finite 1) 8 =
     Inr \<lparr>net = default_net nc,
          parameters = init_weights (modules (default_net nc)) (allocate (default_net nc))\<rparr>"
proof -
  have m1: "scaled_channels 32 (Finite 1) 8 = Inr 32"
    by (simp add: float_eval py_eval)
  have m2: "scaled_channels 1280 (Finite 1) 8 = Inr 1280"
    by (simp add: float_eval py_eval)
  have c1: "construct (ConvBNReLU 3 32 3 2 1) = Inr (ConvBNReLU 3 32 3 2 1)"
    by (rule construct_ConvBNReLU) simp_all
  have c2: "construct (ConvBNReLU 320 1280 1 1 1) = Inr (ConvBNReLU 320 1280 1 1 1)"
    by (rule construct_ConvBNReLU) simp_all
  have c3: "construct (Sequential [Dropout 0.2, Linear 1280 nc]) = Inr (Sequential [Dropout 0.2, Linear 1280 nc])"
    using assms by (simp add: construct_def)
  have fs: "butlast default_features @ [ConvBNReLU 320 1280 1 1 1] = default_features"
    by (simp add: default_features_def)
  show ?thesis
    unfolding MobileNetV2_def m1 m2 sum.case c1 build_stages_default prod.case c2 c3 Let_def fs
      default_net_def
    by (rule refl)
qed

lemma MobileNetV2_negative_classes: "MobileNetV2 (- 5) (Finite 0) 8 = Inl RuntimeError"
proof -
  have sc: "scaled_channels 16 (Finite 0) 8 = Inr 8" "scaled_channels 24 (Finite 0) 8 = Inr 8"
    "scaled_channels 32 (Finite 0) 8 = Inr 8" "scaled_channels 64 (Finite 0) 8 = Inr 8"
    "scaled_channels 96 (Finite 0) 8 = Inr 8" "scaled_channels 160 (Finite 0) 8 = Inr 8"
    "scaled_channels 320 (Finite 0) 8 = Inr 8" "scaled_channels 1280 (Finite 0) 8 = Inr 8"
    by (simp_all add: float_eval py_eval)
  have c1: "construct (ConvBNReLU 3 8 3 2 1) = Inr (ConvBNReLU 3 8 3 2 1)"
    by (rule construct_ConvBNReLU) simp_all
  have c2: "construct (ConvBNReLU 8 8 1 1 1) = Inr (ConvBNReLU 8 8 1 1 1)"
    by (rule construct_ConvBNReLU) simp_all
  have c3: "construct (Sequential [Dropout 0.2, Linear 8 (- 5)]) = Inl RuntimeError"
    by (simp add: construct_def)
  have "\<exists>fs. build_stages (Finite 0) 8 inverted_residual_setting (8, [ConvBNReLU 3 8 3 2 1]) = Inr (8, fs)"
    by (simp add: inverted_residual_setting_def sc stage_loop_ok)
  then obtain fs where
    b: "build_stages (Finite 0) 8 inverted_residual_setting (8, [ConvBNReLU 3 8 3 2 1]) = Inr (8, fs)"
    by blast
  show ?thesis
    unfolding MobileNetV2_def using c3 by (simp add: sc c1 b c2)
qed

lemma MobileNetV2_overflow: "MobileNetV2 1000 (Finite (2 ^ 1020)) 8 = Inl OverflowError"
proof -
  have "scaled_channels 32 (Finite (2 ^ 1020)) 8 = Inl OverflowError"
    by (simp add: float_eval py_eval)
  then show ?thesis by (simp add: MobileNetV2_def)
qed

lemma MobileNetV2_negative_granularity:
  "MobileNetV2 10 (double 0.1) (- 8) = Inl RuntimeError"
proof -
  have "scaled_channels 32 (double 0.1) (- 8) = Inr (- 8)"
    by (simp add: float_eval py_eval)
  moreover have "scaled_channels 1280 (double 0.1) (- 8) = Inr 128"
    by (simp add: float_eval py_eval)
  moreover have "construct (ConvBNReLU 3 (- 8) 3 2 1) = Inl RuntimeError"
    by (simp add: construct_def ConvBNReLU_def)
  ultimately show ?thesis by (simp add: MobileNetV2_def)
qed

subsection \<open>The feature sequence\<close>

text \<open>
  Claim C4. Whenever the constructor returns a network, for every \<open>num_classes\<close>,
  \<open>alpha\<close> and \<open>round_nearest\<close>, its feature sequence is a stem unit, then inverted
  residual blocks, then a head unit; every block's input channels are the output
  channels of the block before it (of the stem for the first block); and the strides of
  the blocks are, stage by stage, the stage's stride for its first block and 1 for the
  remaining \<open>n - 1\<close>.
\<close>

theorem channel_propagation:
  assumes "MobileNetV2 num_classes alpha round_nearest = Inr m"
  shows "\<exists>stem blocks head.
           layers (features (net m)) = stem # blocks @ [head] \<and>
           is_ConvBNReLU stem \<and> is_ConvBNReLU head \<and>
           (\<forall>b \<in> set blocks. is_InvertedResidual b) \<and>
           (\<forall>k < length blocks.
              block_in (blocks ! k) \<noteq> None \<and>
              block_in (blocks ! k) = (if k = 0 then block_out stem else block_out (blocks ! (k - 1)))) \<and>
           map block_stride blocks = concat (map stage_strides inverted_residual_setting)"
proof -
  from MobileNetV2_features [OF assms] obtain ic lc ic' bs where
    f: "layers (features (net m)) = ConvBNReLU 3 ic 3 2 1 # bs @ [ConvBNReLU ic' lc 1 1 1]"
    and ch: "chain ic bs ic'"
    and ir: "\<forall>b \<in> set bs. \<exists>i o' s t. b = InvertedResidual i o' s t"
    and st: "map block_stride bs = concat (map stage_strides inverted_residual_setting)"
    by blast
  have ir': "\<forall>b \<in> set bs. is_InvertedResidual b"
  proof
    fix b assume "b \<in> set bs"
    with ir obtain i o' s t where "b = InvertedResidual i o' s t" by blast
    then show "is_InvertedResidual b" by (simp add: is_InvertedResidual_InvertedResidual)
  qed
  have idx: "\<forall>k < length bs. block_in (bs ! k) \<noteq> None \<and>
      block_in (bs ! k) = (if k = 0 then block_out (ConvBNReLU 3 ic 3 2 1) else block_out (bs ! (k - 1)))"
  proof (intro allI impI)
    fix k assume k: "k < length bs"
    from chain_nth [OF ch k] show "block_in (bs ! k) \<noteq> None \<and>
      block_in (bs ! k) = (if k = 0 then block_out (ConvBNReLU 3 ic 3 2 1) else block_out (bs ! (k - 1)))"
      unfolding block_out_ConvBNReLU .
  qed
  show ?thesis
    using f ir' idx st is_ConvBNReLU_ConvBNReLU by blast
qed

theorem channel_propagation_witness:
  "\<exists>m. MobileNetV2 1000 (Finite 1) 8 = Inr m \<and>
       layers (features (net m)) = default_features \<and>
       (\<exists>stem blocks head.
           layers (features (net m)) = stem # blocks @ [head] \<and>
           is_ConvBNReLU stem \<and> is_ConvBNReLU head \<and>
           (\<forall>b \<in> set blocks. is_InvertedResidual b) \<and>
           (\<forall>k < length blocks.
              block_in (blocks ! k) \<noteq> None \<and>
              block_in (blocks ! k) = (if k = 0 then block_out stem else block_out (blocks ! (k - 1)))) \<and>
           map block_stride blocks = concat (map stage_strides inverted_residual_setting))"
proof -
  define m where "m = \<lparr>net = default_net 1000,
      parameters = init_weights (modules (default_net 1000)) (allocate (default_net 1000))\<rparr>"
  have e: "MobileNetV2 1000 (Finite 1) 8 = Inr m"
    unfolding m_def by (rule MobileNetV2_default) simp
  have f: "layers (features (net m)) = default_features"
    by (simp add: m_def default_net_def)
  from e f channel_propagation [OF e] show ?thesis by blast
qed

text \<open>
  Claim C5. For \<open>alpha = 1.0\<close> and \<open>round_nearest = 8\<close> (and any \<open>num_classes \<ge> 0\<close>, which the linear map of the classifier needs) the
  constructor returns a network whose feature sequence is the one written out in
  \<open>default_features\<close>: 19 units, of which 17 = 1+2+3+4+3+3+1 are inverted residual
  blocks and two are ConvBNReLU units, the stem with 32 output channels first and the
  head with 1280 output channels last; the first block of each stage (positions 1, 2, 4,
  7, 11, 14 and 17) takes as input the stem's 32 channels or the rounded output
  channels 16, 24, 32, 64, 96, 160 of the stage before.
\<close>

theorem default_feature_sequence:
  assumes "0 \<le> num_classes"
  shows "\<exists>m. MobileNetV2 num_classes (Finite 1) 8 = Inr m \<and>
       layers (features (net m)) = default_features \<and>
       length (layers (features (net m))) = 19 \<and>
       length (filter is_InvertedResidual (layers (features (net m)))) = 17 \<and>
       sum_list (map (\<lambda>(t, c, n, s). n) inverted_residual_setting) = 17 \<and>
       filter is_ConvBNReLU (layers (features (net m))) =
         [ConvBNReLU 3 32 3 2 1, ConvBNReLU 320 1280 1 1 1] \<and>
       hd (layers (features (net m))) = ConvBNReLU 3 32 3 2 1 \<and>
       last (layers (features (net m))) = ConvBNReLU 320 1280 1 1 1 \<and>
       block_out (hd (layers (features (net m)))) = Some 32 \<and>
       block_out (last (layers (features (net m)))) = Some 1280 \<and>
       map (\<lambda>(t, c, n, s). scaled_channels c (Finite 1) 8) inverted_residual_setting =
         map Inr [16, 24, 32, 64, 96, 160, 320] \<and>
       map (\<lambda>k. block_in (layers (features (net m)) ! k)) [1, 2, 4, 7, 11, 14, 17] =
         map Some [32, 16, 24, 32, 64, 96, 160]"
proof -
  have f: "length default_features = 19" by (simp add: default_features_def)
  have ir: "length (filter is_InvertedResidual default_features) = 17"
    by (simp add: default_features_def is_InvertedResidual_InvertedResidual ConvBNReLU_def)
  have n: "sum_list (map (\<lambda>(t, c, n, s). n) inverted_residual_setting) = 17"
    by (simp add: inverted_residual_setting_def)
  have cb: "filter is_ConvBNReLU default_features = [ConvBNReLU 3 32 3 2 1, ConvBNReLU 320 1280 1 1 1]"
    by (simp add: default_features_def InvertedResidual_def Let_def is_ConvBNReLU_ConvBNReLU)
  have h: "hd default_features = ConvBNReLU 3 32 3 2 1" by (simp add: default_features_def)
  have l: "last default_features = ConvBNReLU 320 1280 1 1 1" by (simp add: default_features_def)
  have bi: "map (\<lambda>k. block_in (default_features ! k)) [1, 2, 4, 7, 11, 14, 17] =
         map Some [32, 16, 24, 32, 64, 96, 160]"
    by (simp add: default_features_def block_in_InvertedResidual)
  show ?thesis
    unfolding MobileNetV2_default [OF assms]
    using f ir n cb h l bi setting_channels
    by (simp add: default_net_def block_out_ConvBNReLU)
qed

theorem default_feature_sequence_witness:
  "(0::int) \<le> 1000 \<and>
   (\<exists>m. MobileNetV2 1000 (Finite 1) 8 = Inr m \<and>
        net m = default_net 1000 \<and>
        layers (features (net m)) = default_features \<and>
        length (filter is_InvertedResidual (layers (features (net m)))) = 17)"
proof -
  have h: "(0::int) \<le> 1000" by simp
  have e: "MobileNetV2 1000 (Finite 1) 8 =
     Inr \<lparr>net = default_net 1000,
          parameters = init_weights (modules (default_net 1000)) (allocate (default_net 1000))\<rparr>"
    by (rule MobileNetV2_default [OF h])
  from default_feature_sequence [OF h] obtain m where
    m: "MobileNetV2 1000 (Finite 1) 8 = Inr m" "layers (features (net m)) = default_features"
       "length (filter is_InvertedResidual (layers (features (net m)))) = 17"
    by blast
  from m(1) e have "m = \<lparr>net = default_net 1000,
          parameters = init_weights (modules (default_net 1000)) (allocate (default_net 1000))\<rparr>"
    by (simp only: sum.inject)
  then have "net m = default_net 1000" by simp
  with h m show ?thesis by blast
qed

subsection \<open>When construction completes\<close>

text \<open>Every power of two up to \<open>2 ^ 1023\<close> is a double.\<close>

lemma log2_up_power: "k \<le> n \<Longrightarrow> log2_up n (2 ^ k) = k"
proof (induction n arbitrary: k)
  case 0
  then show ?case by simp
next
  case (Suc n)
  show ?case
  proof (cases k)
    case 0
    then show ?thesis by simp
  next
    case (Suc j)
    have "\<not> (2::real) ^ k < 2" using Suc by (simp add: not_less)
    moreover have "(2::real) ^ k / 2 = 2 ^ j" using Suc by simp
    moreover have "log2_up n (2 ^ j) = j" using Suc.IH [of j] Suc.prems Suc by simp
    ultimately show ?thesis using Suc by simp
  qed
qed

lemma is_double_power:
  assumes "k \<le> 1023"
  shows "is_double (Finite (2 ^ k))"
proof -
  have e: "exponent (2 ^ k) = int k"
    using assms by (simp add: exponent_def log2_up_power)
  have u: "ulp (2 ^ k) = 2 powi (int k - 52)" by (simp add: ulp_def e)
  have "(2::real) powi (int k - (int k - 52)) = 2 powi int k / 2 powi (int k - 52)"
    by (rule power_int_diff) simp
  then have q: "(2::real) ^ k / ulp (2 ^ k) = 2 ^ 52" by (simp add: u)
  have r: "round_half_even (2 ^ 52) = 2 ^ 52" by (simp add: round_half_even_def)
  have "nearest (2 ^ k) = 2 powi (int k - 52) * 2 ^ 52"
    unfolding nearest_def q r by (simp add: u)
  also have "\<dots> = 2 powi (int k - 52) * 2 powi 52" by simp
  also have "\<dots> = 2 powi (int k - 52 + 52)" by (rule power_int_add [symmetric]) simp
  finally have n: "nearest (2 ^ k) = 2 ^ k" by simp
  have "(2::real) ^ k < 2 ^ 1024" using assms by (intro power_strict_increasing) simp_all
  moreover have "\<bar>(2::real) ^ k\<bar> = 2 ^ k" by (rule abs_of_nonneg) simp
  ultimately have lt: "\<not> (2::real) ^ 1024 \<le> \<bar>2 ^ k\<bar>" by (simp only: not_le)
  have nz: "(2::real) ^ k \<noteq> 0" by simp
  show ?thesis
    unfolding is_double.simps round_double_def n using lt nz by (simp only: if_False)
qed

text \<open>Rounding a real of magnitude at most \<open>2 ^ 1023\<close>: finite, and at most doubled.\<close>

lemma round_double_bounded:
  assumes "\<bar>x\<bar> \<le> 2 ^ 1023"
  shows "\<exists>r. round_double x = Finite r \<and> \<bar>r\<bar> \<le> 2 * \<bar>x\<bar> + 1"
proof -
  define B where "B = (2::real) ^ 1023"
  define g where "g = (2::real) ^ 970"
  have Bg: "B = g * 2 ^ 53" "(2::real) ^ 1024 = 2 * B" "1 \<le> g"
    by (simp_all add: B_def g_def)
  have "g < B" using Bg(1,3) by simp
  with assms have "\<bar>x\<bar> + g < 2 * B" by (simp add: B_def)
  then have "\<bar>x\<bar> + 2 ^ 970 < 2 ^ 1024" by (simp only: g_def Bg(2))
  from round_double_finite [OF this] obtain r where r: "round_double x = Finite r" by blast
  have "\<bar>r - x\<bar> \<le> \<bar>x\<bar> / 2 ^ 53 + 1 / 2 ^ 1075" by (rule round_double_error [OF r])
  moreover have "\<bar>x\<bar> / 2 ^ 53 \<le> \<bar>x\<bar>" by (simp add: field_simps)
  moreover have "(1::real) / 2 ^ 1075 \<le> 1" by simp
  ultimately have "\<bar>r\<bar> \<le> 2 * \<bar>x\<bar> + 1" by linarith
  with r show ?thesis by blast
qed

lemma make_divisible_total:
  assumes "0 < d" and "real_of_int d \<le> 2 ^ 1000" and "\<bar>ch\<bar> \<le> 2 ^ 1020"
  shows "\<exists>n. make_divisible (Finite ch) d None = Inr n \<and> d \<le> n"
proof -
  define K where "K = (2::real) ^ 1000"
  have K: "1 \<le> K" "(2::real) ^ 1020 = 1048576 * K" "(2::real) ^ 1023 = 8388608 * K"
    by (simp_all add: K_def)
  define x where "x = real_of_int d / 2"
  have x: "0 \<le> x" "x \<le> K" using assms(1,2) by (simp_all add: x_def K_def)
  then have "\<bar>x\<bar> \<le> 8388608 * K" using K(1) by simp
  then have "\<bar>x\<bar> \<le> 2 ^ 1023" by (simp only: K(3))
  from round_double_bounded [OF this] obtain h where
    h: "round_double x = Finite h" "\<bar>h\<bar> \<le> 2 * \<bar>x\<bar> + 1" by blast
  have hK: "\<bar>h\<bar> \<le> 3 * K" using h(2) x K(1) by simp
  have "\<bar>ch\<bar> \<le> 1048576 * K" using assms(3) by (simp only: K(2))
  with hK have "\<bar>ch + h\<bar> \<le> 8388608 * K" using K(1) by simp
  then have "\<bar>ch + h\<bar> \<le> 2 ^ 1023" by (simp only: K(3))
  from round_double_bounded [OF this] obtain s where s: "round_double (ch + h) = Finite s" by blast
  have td: "int_truediv d 2 = Inr (Finite h)" using h(1) by (simp add: int_truediv_def x_def)
  have fa: "fadd (Finite ch) (Finite h) = Finite s" using s by simp
  define i where "i = (if 0 \<le> s then \<lfloor>s\<rfloor> else \<lceil>s\<rceil>)"
  define new_ch where "new_ch = max d (i div d * d)"
  have "make_divisible (Finite ch) d None =
      Inr (if int_lt_float new_ch (fmul (double 0.9) (Finite ch)) then new_ch + d else new_ch)"
    unfolding make_divisible_def Let_def td sum.case fa
    using assms(1) by (simp add: py_floordiv_def new_ch_def i_def)
  moreover have "d \<le> new_ch" by (simp add: new_ch_def)
  ultimately show ?thesis using assms(1) by auto
qed

lemma scaled_channels_total:
  assumes "0 < rn" and "real_of_int rn \<le> 2 ^ 1000" and "\<bar>a\<bar> \<le> 2 ^ 1000" and "\<bar>c\<bar> \<le> 1280"
  shows "\<exists>n. scaled_channels c (Finite a) rn = Inr n \<and> rn \<le> n"
proof -
  define K where "K = (2::real) ^ 1000"
  have K: "1 \<le> K" "(2::real) ^ 1020 = 1048576 * K" "(2::real) ^ 1023 = 8388608 * K"
    by (simp_all add: K_def)
  have aK: "\<bar>a\<bar> \<le> K" using assms(3) by (simp add: K_def)
  have c: "\<bar>real_of_int c\<bar> \<le> 1280" using assms(4) by linarith
  then have "\<bar>real_of_int c\<bar> \<le> 8388608 * K" using K(1) by simp
  then have "\<bar>real_of_int c\<bar> \<le> 2 ^ 1023" by (simp only: K(3))
  from round_double_bounded [OF this] obtain cf where
    cf: "round_double (real_of_int c) = Finite cf" "\<bar>cf\<bar> \<le> 2 * \<bar>real_of_int c\<bar> + 1" by blast
  have cfb: "\<bar>cf\<bar> \<le> 2561" using cf(2) c by simp
  have "\<bar>cf * a\<bar> = \<bar>cf\<bar> * \<bar>a\<bar>" by (rule abs_mult)
  also have "\<dots> \<le> 2561 * K" using cfb aK by (intro mult_mono) simp_all
  finally have y: "\<bar>cf * a\<bar> \<le> 2561 * K" .
  then have "\<bar>cf * a\<bar> \<le> 8388608 * K" using K(1) by simp
  then have "\<bar>cf * a\<bar> \<le> 2 ^ 1023" by (simp only: K(3))
  from round_double_bounded [OF this] obtain ch where
    ch: "round_double (cf * a) = Finite ch" "\<bar>ch\<bar> \<le> 2 * \<bar>cf * a\<bar> + 1" by blast
  have "\<bar>ch\<bar> \<le> 1048576 * K" using ch(2) y K(1) by simp
  then have chb: "\<bar>ch\<bar> \<le> 2 ^ 1020" by (simp only: K(2))
  have "int_times_float c (Finite a) = Inr (Finite ch)"
    using cf(1) ch(1) by (simp add: int_times_float_def int_to_float_def)
  with make_divisible_total [OF assms(1,2) chb] show ?thesis
    by (simp add: scaled_channels_def)
qed

lemma build_stages_total:
  assumes "0 < rn" and "real_of_int rn \<le> 2 ^ 1000" and "\<bar>a\<bar> \<le> 2 ^ 1000"
    and "\<forall>(t, c, n, s) \<in> set settings. 0 < t \<and> \<bar>c\<bar> \<le> 1280"
    and "0 < ic"
  shows "\<exists>ic' fs'. build_stages (Finite a) rn settings (ic, fs) = Inr (ic', fs') \<and> 0 < ic'"
  using assms(4,5)
proof (induction settings arbitrary: ic fs)
  case Nil
  then show ?case by simp
next
  case (Cons st settings)
  obtain t c n s where st: "st = (t, c, n, s)" by (cases st) auto
  from Cons.prems(1) st have t: "0 < t" and c: "\<bar>c\<bar> \<le> 1280"
    and rest: "\<forall>(t, c, n, s) \<in> set settings. 0 < t \<and> \<bar>c\<bar> \<le> 1280"
    by simp_all
  from scaled_channels_total [OF assms(1,2,3) c] obtain oc where
    oc: "scaled_channels c (Finite a) rn = Inr oc" "rn \<le> oc" by blast
  have ocp: "0 < oc" using oc(2) assms(1) by simp
  note loop = stage_loop_ok [OF Cons.prems(2) ocp t, of s n fs]
  show ?case
  proof (cases "n \<le> 0")
    case True
    with Cons.IH [OF rest Cons.prems(2), of fs] st oc(1) loop show ?thesis by simp
  next
    case False
    with Cons.IH [OF rest ocp] st oc(1) loop show ?thesis by simp
  qed
qed

lemma MobileNetV2_features_built:
  assumes "0 < rn" and "real_of_int rn \<le> 2 ^ 1000" and "\<bar>a\<bar> \<le> 2 ^ 1000"
  shows "\<exists>ic lc ic' fs. scaled_channels 32 (Finite a) rn = Inr ic \<and>
      scaled_channels 1280 (Finite a) rn = Inr lc \<and> 0 < lc \<and>
      construct (ConvBNReLU 3 ic 3 2 1) = Inr (ConvBNReLU 3 ic 3 2 1) \<and>
      build_stages (Finite a) rn inverted_residual_setting (ic, [ConvBNReLU 3 ic 3 2 1]) = Inr (ic', fs) \<and>
      construct (ConvBNReLU ic' lc 1 1 1) = Inr (ConvBNReLU ic' lc 1 1 1)"
proof -
  from scaled_channels_total [OF assms, of 32] obtain ic where
    ic: "scaled_channels 32 (Finite a) rn = Inr ic" "rn \<le> ic" by auto
  from scaled_channels_total [OF assms, of 1280] obtain lc where
    lc: "scaled_channels 1280 (Finite a) rn = Inr lc" "rn \<le> lc" by auto
  have icp: "0 < ic" and lcp: "0 < lc" using ic(2) lc(2) assms(1) by simp_all
  have c1: "construct (ConvBNReLU 3 ic 3 2 1) = Inr (ConvBNReLU 3 ic 3 2 1)"
    using icp by (intro construct_ConvBNReLU) simp_all
  have tab: "\<forall>(t, c, n, s) \<in> set inverted_residual_setting. 0 < t \<and> \<bar>c\<bar> \<le> 1280"
    by (simp add: inverted_residual_setting_def)
  from build_stages_total [OF assms tab icp] obtain ic' fs where
    b: "build_stages (Finite a) rn inverted_residual_setting (ic, [ConvBNReLU 3 ic 3 2 1]) = Inr (ic', fs)"
    and icp': "0 < ic'" by blast
  have c2: "construct (ConvBNReLU ic' lc 1 1 1) = Inr (ConvBNReLU ic' lc 1 1 1)"
    using icp' lcp by (intro construct_ConvBNReLU) simp_all
  from ic(1) lc(1) lcp c1 b c2 show ?thesis by blast
qed

lemma MobileNetV2_total:
  assumes "0 \<le> nc" and "0 < rn" and "real_of_int rn \<le> 2 ^ 1000" and "\<bar>a\<bar> \<le> 2 ^ 1000"
  shows "\<exists>m. MobileNetV2 nc (Finite a) rn = Inr m"
proof -
  from MobileNetV2_features_built [OF assms(2,3,4)] obtain ic lc ic' fs where
    ic: "scaled_channels 32 (Finite a) rn = Inr ic" and
    lc: "scaled_channels 1280 (Finite a) rn = Inr lc" and lcp: "0 < lc" and
    c1: "construct (ConvBNReLU 3 ic 3 2 1) = Inr (ConvBNReLU 3 ic 3 2 1)" and
    b: "build_stages (Finite a) rn inverted_residual_setting (ic, [ConvBNReLU 3 ic 3 2 1]) = Inr (ic', fs)" and
    c2: "construct (ConvBNReLU ic' lc 1 1 1) = Inr (ConvBNReLU ic' lc 1 1 1)"
    by blast
  have c3: "construct (Sequential [Dropout 0.2, Linear lc nc]) = Inr (Sequential [Dropout 0.2, Linear lc nc])"
    using assms(1) lcp by (simp add: construct_def)
  show ?thesis
    unfolding MobileNetV2_def ic lc sum.case c1 b prod.case c2 c3 Let_def by blast
qed

lemma MobileNetV2_negative:
  assumes "nc < 0" and "0 < rn" and "real_of_int rn \<le> 2 ^ 1000" and "\<bar>a\<bar> \<le> 2 ^ 1000"
  shows "MobileNetV2 nc (Finite a) rn = Inl RuntimeError"
proof -
  from MobileNetV2_features_built [OF assms(2,3,4)] obtain ic lc ic' fs where
    ic: "scaled_channels 32 (Finite a) rn = Inr ic" and
    lc: "scaled_channels 1280 (Finite a) rn = Inr lc" and lcp: "0 < lc" and
    c1: "construct (ConvBNReLU 3 ic 3 2 1) = Inr (ConvBNReLU 3 ic 3 2 1)" and
    b: "build_stages (Finite a) rn inverted_residual_setting (ic, [ConvBNReLU 3 ic 3 2 1]) = Inr (ic', fs)" and
    c2: "construct (ConvBNReLU ic' lc 1 1 1) = Inr (ConvBNReLU ic' lc 1 1 1)"
    by blast
  have c3: "construct (Sequential [Dropout 0.2, Linear lc nc]) = Inl RuntimeError"
    using assms(1) by (simp add: construct_def)
  show ?thesis
    unfolding MobileNetV2_def ic lc sum.case c1 b prod.case c2 c3 Let_def by (rule refl)
qed

text \<open>
  Claim C9, as stated, fails on the code. The constructor has no range check of its own,
  but it does not complete for every \<open>num_classes\<close> and width multiplier: with
  \<open>num_classes = -5\<close> (and width multiplier 0) the features are built and then the
  linear map of the classifier is rejected by the library, inside the constructor, for its
  negative dimension; and with the width multiplier \<open>2 ^ 1020\<close>, a double, the product
  \<open>32 * alpha\<close> is infinite and \<^verbatim>\<open>int\<close> in the rounding helper raises \<open>OverflowError\<close>
  during construction.
\<close>

theorem construction_counterexample:
  "MobileNetV2 (- 5) (Finite 0) 8 = Inl RuntimeError \<and>
   is_double (Finite (2 ^ 1020)) \<and>
   MobileNetV2 1000 (Finite (2 ^ 1020)) 8 = Inl OverflowError"
proof -
  have "is_double (Finite (2 ^ 1020))" by (rule is_double_power) simp
  with MobileNetV2_negative_classes MobileNetV2_overflow show ?thesis by blast
qed

text \<open>
  Claim C9, amended. The constructor validates no range itself. For every granularity
  \<open>0 < round_nearest \<le> 1024\<close> and every width multiplier with \<open>\<bar>alpha\<bar> \<le> 4\<close>, the
  non-positive ones included, construction completes for every
  \<open>0 \<le> num_classes \<le> 10000\<close>, zero included, and returns a network with 19 feature
  units and a classifier ending in a linear map onto \<open>num_classes\<close> outputs; and for
  every negative \<open>num_classes\<close> it raises \<open>RuntimeError\<close> while the classifier is being
  built. The bounds keep the network small: the storage that the layers need is not
  part of the model.
\<close>

theorem construction_completes:
  assumes "0 < round_nearest" and "round_nearest \<le> 1024" and "\<bar>a\<bar> \<le> 4"
  shows "(0 \<le> num_classes \<and> num_classes \<le> 10000 \<longrightarrow>
          (\<exists>m. MobileNetV2 num_classes (Finite a) round_nearest = Inr m \<and>
               is_MobileNetV2 (net m) \<and>
               length (layers (features (net m))) = 19 \<and>
               (\<exists>c. classifier (net m) = Sequential [Dropout 0.2, Linear c num_classes]))) \<and>
         (num_classes < 0 \<longrightarrow>
          MobileNetV2 num_classes (Finite a) round_nearest = Inl RuntimeError)"
proof -
  have "real_of_int round_nearest \<le> 1024" using assms(2) by linarith
  also have "(1024::real) \<le> 2 ^ 1000" by simp
  finally have rn: "real_of_int round_nearest \<le> 2 ^ 1000" .
  have "(4::real) \<le> 2 ^ 1000" by simp
  with assms(3) have a: "\<bar>a\<bar> \<le> 2 ^ 1000" by linarith
  have "\<exists>m. MobileNetV2 num_classes (Finite a) round_nearest = Inr m \<and>
               is_MobileNetV2 (net m) \<and>
               length (layers (features (net m))) = 19 \<and>
               (\<exists>c. classifier (net m) = Sequential [Dropout 0.2, Linear c num_classes])"
    if nc: "0 \<le> num_classes"
  proof -
    from MobileNetV2_total [OF nc assms(1) rn a] obtain m where
      m: "MobileNetV2 num_classes (Finite a) round_nearest = Inr m" by blast
    from MobileNetV2_features [OF m] obtain ic lc ic' bs where
      f: "layers (features (net m)) = ConvBNReLU 3 ic 3 2 1 # bs @ [ConvBNReLU ic' lc 1 1 1]"
      and c: "classifier (net m) = Sequential [Dropout 0.2, Linear lc num_classes]"
      and k: "is_MobileNetV2 (net m)"
      and st: "map block_stride bs = concat (map stage_strides inverted_residual_setting)"
      by blast
    have "length bs = length (map block_stride bs)" by simp
    also have "\<dots> = 17" unfolding st stage_strides_setting by simp
    finally have "length (layers (features (net m))) = 19" using f by simp
    with m c k show ?thesis by blast
  qed
  moreover have "MobileNetV2 num_classes (Finite a) round_nearest = Inl RuntimeError"
    if "num_classes < 0"
    by (rule MobileNetV2_negative [OF that assms(1) rn a])
  ultimately show ?thesis by blast
qed

text \<open>
  The width multiplier \<open>-1\<close> with granularity 8: construction completes with no classes
  at all, and raises with \<open>-5\<close> classes.
\<close>

theorem construction_completes_witness:
  "(0::int) < 8 \<and> (8::int) \<le> 1024 \<and> \<bar>- 1 :: real\<bar> \<le> 4 \<and> is_double (Finite (- 1)) \<and>
   (0::int) \<le> 0 \<and> (0::int) \<le> 10000 \<and> (- 5 :: int) < 0 \<and>
   (\<exists>m. MobileNetV2 0 (Finite (- 1)) 8 = Inr m \<and> is_MobileNetV2 (net m) \<and>
        length (layers (features (net m))) = 19 \<and>
        (\<exists>c. classifier (net m) = Sequential [Dropout 0.2, Linear c 0])) \<and>
   MobileNetV2 (- 5) (Finite (- 1)) 8 = Inl RuntimeError"
proof -
  have h1: "(0::int) < 8" by simp
  have h2: "(8::int) \<le> 1024" by simp
  have h3: "\<bar>- 1 :: real\<bar> \<le> 4" by simp
  have d: "is_double (Finite (- 1))" by (simp add: float_eval)
  from construction_completes [OF h1 h2 h3, of 0] construction_completes [OF h1 h2 h3, of "- 5"] d
  show ?thesis by simp
qed

end
